theory Spec2Isabelle
  imports Main "HOL-Library.Word" "HOL-Library.Sublist"
begin

section \<open>The fifo channel of perf\_model.cpp\<close>

text \<open>
  The channel \<^verbatim>\<open>fifo\<close> is a ring buffer of \<^verbatim>\<open>uint32_t\<close> with blocking
  \<^verbatim>\<open>write\<close> and \<^verbatim>\<open>read\<close>. Every member of the class is a field of the record
  below, with the width it has in the source; \<^verbatim>\<open>sc_time\<close> values are natural
  numbers (nanoseconds). The two \<^verbatim>\<open>sc_event\<close> members carry no data: which
  process waits on which event is part of the process states further down.
\<close>

type_synonym u32 = "32 word"

record fifo =
  data :: "u32 list"
  fifo_size :: u32
  wr_ptr :: u32
  rd_ptr :: u32
  buffer_size :: u32
  read_count :: u32
  max_buffered :: u32
  average_acc :: u32
  last_time :: nat

text \<open>An access to \<^verbatim>\<open>data[k]\<close> outside the allocated array is undefined behaviour
  in the source; in the model it is the fault \<open>OutOfBounds\<close>. \<open>Disabled\<close> is no
  behaviour of the program: it marks a schedule that asks a suspended (or
  finished) process to run.\<close>

datatype error = OutOfBounds | Disabled

text \<open>A step that can fail, followed by the rest of the computation.\<close>

fun and_then :: "error + 'a \<Rightarrow> ('a \<Rightarrow> error + 'b) \<Rightarrow> error + 'b" where
  "and_then (Inl e) k = Inl e"
| "and_then (Inr x) k = k x"

text \<open>The constructor (lines 35-46). \<^verbatim>\<open>new uint32_t[fifo_size]\<close> does not initialise
  the elements: \<open>heap\<close> gives the indeterminate contents of the fresh array.\<close>

definition fifo_ctor :: "u32 \<Rightarrow> (nat \<Rightarrow> u32) \<Rightarrow> fifo" where
  "fifo_ctor n heap =
     \<lparr> data = map heap [0 ..< unat n], fifo_size = n, wr_ptr = 0, rd_ptr = 0,
       buffer_size = 0, read_count = 0, max_buffered = 0, average_acc = 0,
       last_time = 0 \<rparr>"

text \<open>\<^verbatim>\<open>compute_status\<close> (lines 132-142).\<close>

definition compute_status :: "fifo \<Rightarrow> fifo" where
  "compute_status f =
     (let f1 = f\<lparr>average_acc := average_acc f + buffer_size f\<rparr>;
          f2 = (if buffer_size f1 > max_buffered f1
                then f1\<lparr>max_buffered := buffer_size f1\<rparr> else f1)
      in f2\<lparr>read_count := read_count f2 + 1\<rparr>)"

text \<open>\<^verbatim>\<open>write\<close> (lines 60-72) is two pieces of straight-line code separated by the
  suspension point \<^verbatim>\<open>wait(read_event)\<close>: the test of line 62, and lines 67-69,
  which run either directly (test false) or when the process is resumed.
  The notification of line 71 acts on the waiting process and is part of
  the steps below.\<close>

definition is_full :: "fifo \<Rightarrow> bool" where
  "is_full f = (buffer_size f = fifo_size f)"

definition is_empty :: "fifo \<Rightarrow> bool" where
  "is_empty f = (buffer_size f = 0)"

definition get_buffer_size :: "fifo \<Rightarrow> u32" where
  "get_buffer_size f = buffer_size f"

definition write_body :: "fifo \<Rightarrow> u32 \<Rightarrow> error + fifo" where
  "write_body f pd =
     (if unat (wr_ptr f) < length (data f) then
        (let f1 = f\<lparr>data := (data f)[unat (wr_ptr f) := pd], wr_ptr := wr_ptr f + 1\<rparr>;
             f2 = f1\<lparr>buffer_size := buffer_size f1 + 1\<rparr>
         in Inr (f2\<lparr>wr_ptr := (if wr_ptr f2 = fifo_size f2 then 0 else wr_ptr f2)\<rparr>))
      else Inl OutOfBounds)"

text \<open>\<^verbatim>\<open>read\<close> (lines 74-90): line 76 and the test of line 78 run when the call
  is made; lines 83-87 run directly or on resumption. The result is the value
  stored into \<^verbatim>\<open>pd\<close> and the new channel state.\<close>

definition read_enter :: "nat \<Rightarrow> fifo \<Rightarrow> fifo" where
  "read_enter now f = f\<lparr>last_time := now\<rparr>"

definition read_body :: "fifo \<Rightarrow> error + (u32 \<times> fifo)" where
  "read_body f =
     (let f1 = compute_status f in
      if unat (rd_ptr f1) < length (data f1) then
        (let pd = data f1 ! unat (rd_ptr f1);
             f2 = f1\<lparr>rd_ptr := rd_ptr f1 + 1\<rparr>;
             f3 = f2\<lparr>buffer_size := buffer_size f2 - 1\<rparr>
         in Inr (pd, f3\<lparr>rd_ptr := (if rd_ptr f3 = fifo_size f3 then 0 else rd_ptr f3)\<rparr>))
      else Inl OutOfBounds)"

text \<open>\<^verbatim>\<open>reset\<close> (lines 92-97).\<close>

definition reset :: "fifo \<Rightarrow> fifo" where
  "reset f = f\<lparr>buffer_size := 0, wr_ptr := 0, rd_ptr := 0\<rparr>"

text \<open>The destructor (lines 48-58) prints five values. The two quotients are
  computed by library code that is not part of the repository: the division of
  two \<^verbatim>\<open>double\<close>s and \<^verbatim>\<open>sc_time / double\<close>. They are parameters \<open>fdiv\<close> and
  \<open>tdiv\<close> of the model, applied to the operands the source passes.\<close>

record ('q, 't) report =
  rep_fifo_size :: u32
  avg_fill_depth :: 'q
  avg_time_per_pd :: 't
  total_pd :: u32
  total_time :: nat

definition fifo_dtor ::
  "(nat \<Rightarrow> nat \<Rightarrow> 'q) \<Rightarrow> (nat \<Rightarrow> nat \<Rightarrow> 't) \<Rightarrow> fifo \<Rightarrow> ('q, 't) report" where
  "fifo_dtor fdiv tdiv f =
     \<lparr> rep_fifo_size = fifo_size f,
       avg_fill_depth = fdiv (unat (average_acc f)) (unat (read_count f)),
       avg_time_per_pd = tdiv (last_time f) (unat (read_count f)),
       total_pd = read_count f,
       total_time = last_time f \<rparr>"

section \<open>The producer's burst length\<close>

text \<open>Line 166: \<^verbatim>\<open>int i = 1 + uint32_t(19.0 * rand() / RAND_MAX)\<close>. \<^verbatim>\<open>RAND_MAX\<close>
  comes from the C library and is the parameter \<open>rand_max\<close>; \<open>r\<close> is the value
  \<^verbatim>\<open>rand()\<close> returned, \<open>0 \<le> r \<le> rand_max\<close>. The product \<open>19 * r\<close> is below
  \<open>2^36\<close> and exact in a double; the quotient is rounded to a double that
  cannot reach the next integer from below (the gap \<open>1 / rand_max\<close> is far above
  the rounding error), so the truncating conversion yields \<open>(19 * r) div rand_max\<close>.\<close>

definition burst_length :: "nat \<Rightarrow> nat \<Rightarrow> int" where
  "burst_length rand_max r = 1 + int ((19 * r) div rand_max)"

section \<open>The channel between one writing and one reading process\<close>

text \<open>
  The channel is used through \<^verbatim>\<open>write_if\<close> by one process and through
  \<^verbatim>\<open>read_if\<close> by another. SystemC threads are coroutines: a process runs
  without interruption until it calls \<^verbatim>\<open>wait\<close>. A process suspended in
  \<^verbatim>\<open>wait(read_event)\<close> (line 64) or \<^verbatim>\<open>wait(write_event)\<close> (line 80) becomes
  runnable again by the immediate notification \<^verbatim>\<open>notify()\<close> of that event
  (lines 71 and 89); a notification with no process waiting is lost.

  The state of the writing process with respect to the channel: outside
  \<^verbatim>\<open>write\<close>; suspended at line 64 with the argument \<^verbatim>\<open>pd\<close>; or notified and
  about to continue at line 67. Likewise for the reading process.
\<close>

datatype wproc = W_idle | W_waiting u32 | W_woken u32

datatype rproc = R_idle | R_waiting | R_woken

text \<open>\<open>clock\<close> is \<^verbatim>\<open>sc_time_stamp()\<close>. The three logs are history variables,
  which the program does not have: the arguments of the calls of \<^verbatim>\<open>write\<close>,
  the values \<^verbatim>\<open>read\<close> has stored into \<^verbatim>\<open>pd\<close>, and the value of \<^verbatim>\<open>buffer_size\<close>
  immediately before line 86 removed each of them.\<close>

record chan =
  q :: fifo
  writer :: wproc
  reader :: rproc
  clock :: nat
  put_log :: "u32 list"
  take_log :: "u32 list"
  occ_log :: "u32 list"

definition chan_init :: "u32 \<Rightarrow> (nat \<Rightarrow> u32) \<Rightarrow> chan" where
  "chan_init n heap =
     \<lparr> q = fifo_ctor n heap, writer = W_idle, reader = R_idle, clock = 0,
       put_log = [], take_log = [], occ_log = [] \<rparr>"

definition notify_write_event :: "chan \<Rightarrow> chan" where
  "notify_write_event s = (if reader s = R_waiting then s\<lparr>reader := R_woken\<rparr> else s)"

definition notify_read_event :: "chan \<Rightarrow> chan" where
  "notify_read_event s =
     (case writer s of W_waiting pd \<Rightarrow> s\<lparr>writer := W_woken pd\<rparr> | _ \<Rightarrow> s)"

text \<open>Lines 67-71 and the return from \<^verbatim>\<open>write\<close>; lines 83-89 and the return
  from \<^verbatim>\<open>read\<close>.\<close>

definition finish_write :: "chan \<Rightarrow> u32 \<Rightarrow> error + chan" where
  "finish_write s pd =
     (case write_body (q s) pd of
        Inl e \<Rightarrow> Inl e
      | Inr f \<Rightarrow> Inr (notify_write_event (s\<lparr>q := f, writer := W_idle\<rparr>)))"

definition finish_read :: "chan \<Rightarrow> error + chan" where
  "finish_read s =
     (case read_body (q s) of
        Inl e \<Rightarrow> Inl e
      | Inr (pd, f) \<Rightarrow>
          Inr (notify_read_event
                (s\<lparr>q := f, reader := R_idle, take_log := take_log s @ [pd],
                   occ_log := occ_log s @ [buffer_size (q s)]\<rparr>)))"

text \<open>What the two processes and the simulation kernel can do next: the writer
  calls \<^verbatim>\<open>write(pd)\<close> or \<^verbatim>\<open>reset()\<close>, or continues a suspended \<^verbatim>\<open>write\<close>; the
  reader calls \<^verbatim>\<open>read\<close> or continues a suspended one; simulated time advances.
  A process does a step only in the state that allows it (a suspended process
  makes no call, only a notified one continues); \<^verbatim>\<open>reset\<close> has no check in the
  code and is allowed whenever the writer can make a call. Time may advance
  between any two steps, which is more than the kernel allows.\<close>

datatype action = Put u32 | Put_resume | Take | Take_resume | Reset | Advance nat

fun step :: "action \<Rightarrow> chan \<Rightarrow> error + chan" where
  "step (Put pd) s =
     (if writer s = W_idle then
        (let s1 = s\<lparr>put_log := put_log s @ [pd]\<rparr> in
         if is_full (q s1) then Inr (s1\<lparr>writer := W_waiting pd\<rparr>)
         else finish_write s1 pd)
      else Inl Disabled)"
| "step Put_resume s =
     (case writer s of W_woken pd \<Rightarrow> finish_write s pd | _ \<Rightarrow> Inl Disabled)"
| "step Take s =
     (if reader s = R_idle then
        (let s1 = s\<lparr>q := read_enter (clock s) (q s)\<rparr> in
         if is_empty (q s1) then Inr (s1\<lparr>reader := R_waiting\<rparr>)
         else finish_read s1)
      else Inl Disabled)"
| "step Take_resume s =
     (if reader s = R_woken then finish_read s else Inl Disabled)"
| "step Reset s =
     (if writer s = W_idle then Inr (s\<lparr>q := reset (q s)\<rparr>) else Inl Disabled)"
| "step (Advance d) s = Inr (s\<lparr>clock := clock s + d\<rparr>)"

fun exec :: "action list \<Rightarrow> chan \<Rightarrow> error + chan" where
  "exec [] s = Inr s"
| "exec (a # as) s = (case step a s of Inl e \<Rightarrow> Inl e | Inr s' \<Rightarrow> exec as s')"

text \<open>The precondition of \<^verbatim>\<open>reset\<close>: it is called only while no \<^verbatim>\<open>write\<close> or
  \<^verbatim>\<open>read\<close> is in flight. \<open>reset_when_idle as s\<close> says that the run \<open>as\<close> from \<open>s\<close>
  respects it.\<close>

fun reset_when_idle :: "action list \<Rightarrow> chan \<Rightarrow> bool" where
  "reset_when_idle [] s = True"
| "reset_when_idle (a # as) s =
     ((if a = Reset then writer s = W_idle \<and> reader s = R_idle else True) \<and>
      (case step a s of Inl e \<Rightarrow> True | Inr s' \<Rightarrow> reset_when_idle as s'))"

text \<open>The elements in the ring, oldest first.\<close>

definition contents :: "fifo \<Rightarrow> u32 list" where
  "contents f =
     map (\<lambda>k. data f ! ((unat (rd_ptr f) + k) mod unat (fifo_size f)))
       [0 ..< unat (buffer_size f)]"


definition ring_inv :: "fifo \<Rightarrow> bool" where
  "ring_inv f =
     (length (data f) = unat (fifo_size f) \<and>
      buffer_size f \<le> fifo_size f \<and>
      rd_ptr f < fifo_size f \<and>
      wr_ptr f < fifo_size f \<and>
      unat (wr_ptr f) = (unat (rd_ptr f) + unat (buffer_size f)) mod unat (fifo_size f))"

definition chan_inv :: "chan \<Rightarrow> bool" where
  "chan_inv s =
     (ring_inv (q s) \<and>
      (case writer s of W_woken pd \<Rightarrow> buffer_size (q s) \<noteq> fifo_size (q s) | _ \<Rightarrow> True) \<and>
      (case reader s of R_woken \<Rightarrow> buffer_size (q s) \<noteq> 0 | _ \<Rightarrow> True))"

text \<open>The statistics counters in terms of the occupancies at the removals, in
  32-bit arithmetic.\<close>

definition stats_inv :: "chan \<Rightarrow> bool" where
  "stats_inv s =
     (average_acc (q s) = sum_list (occ_log s) \<and>
      read_count (q s) = of_nat (length (occ_log s)) \<and>
      max_buffered (q s) = fold max (occ_log s) 0)"

section \<open>The producer, the consumer, the monitor and the simulation kernel\<close>

text \<open>
  Each of the three \<^verbatim>\<open>SC_THREAD\<close>s is either runnable, suspended in a \<^verbatim>\<open>wait\<close>
  on an event (\<^verbatim>\<open>write_event\<close>, \<^verbatim>\<open>read_event\<close>, the value-changed event of
  \<^verbatim>\<open>prod_done_sig\<close>), suspended until a point in simulated time, or has returned.
  Where it continues and the values of its local variables are in its
  program counter.
\<close>

datatype waiting =
  Runnable | On_write_event | On_read_event | On_done_change | Until nat | Terminated

text \<open>Producer: before line 162; in \<^verbatim>\<open>out->write(pd)\<close> at line 64 with
  \<^verbatim>\<open>total_loop\<close>, \<^verbatim>\<open>i\<close>, \<^verbatim>\<open>pd\<close>; at line 181 with \<^verbatim>\<open>total_loop\<close>. The two
  \<^verbatim>\<open>int\<close>s never leave the range of a 32-bit integer (\<open>i\<close> is between \<open>-1\<close>
  and 20, \<^verbatim>\<open>total_loop\<close> between \<open>-19\<close> and its initial value), so they are
  mathematical integers here.\<close>

datatype prod_pc = P_entry | P_in_write int int u32 | P_paced int

datatype cons_pc = C_entry | C_in_read | C_paced

datatype mon_pc = M_entry | M_wait_done | M_wait_drain

text \<open>What the program takes from outside: \<^verbatim>\<open>RAND_MAX\<close>, the result of the
  \<open>k\<close>-th call of \<^verbatim>\<open>rand()\<close>, and the initial value of \<^verbatim>\<open>total_loop\<close>, which is
  10000 at line 162.\<close>

record config =
  rand_max :: nat
  rand :: "nat \<Rightarrow> nat"
  quota :: int

text \<open>\<open>done_next\<close> is the value \<^verbatim>\<open>done_o.write\<close> has requested; the signal takes
  it over in the update phase. \<open>console\<close> holds the times printed by line 248,
  \<open>written\<close> (a history variable) the values stored by completed calls of
  \<^verbatim>\<open>write\<close>.\<close>

record sim =
  fifo_inst :: fifo
  prod_done_sig :: bool
  done_next :: bool
  time_stamp :: nat
  prod_wait :: waiting
  prod_at :: prod_pc
  cons_wait :: waiting
  cons_at :: cons_pc
  cons_pd :: u32
  mon_wait :: waiting
  mon_at :: mon_pc
  rand_calls :: nat
  console :: "nat list"
  written :: "u32 list"

text \<open>\<^verbatim>\<open>sc_main\<close> (lines 253-276): the size given on the command line, as \<^verbatim>\<open>atoi\<close>
  returns it, converted to \<^verbatim>\<open>uint32_t\<close> and clamped.\<close>

definition sc_main_size :: "int option \<Rightarrow> u32" where
  "sc_main_size arg =
     (let size1 = (case arg of None \<Rightarrow> 10 | Some a \<Rightarrow> word_of_int a);
          size2 = (if size1 < 1 then 1 else size1)
      in if size2 > 100000 then 100000 else size2)"

definition top_ctor :: "u32 \<Rightarrow> (nat \<Rightarrow> u32) \<Rightarrow> sim" where
  "top_ctor n heap =
     \<lparr> fifo_inst = fifo_ctor n heap, prod_done_sig = False, done_next = False,
       time_stamp = 0, prod_wait = Runnable, prod_at = P_entry,
       cons_wait = Runnable, cons_at = C_entry, cons_pd = 0,
       mon_wait = Runnable, mon_at = M_entry, rand_calls = 0,
       console = [], written = [] \<rparr>"

text \<open>An immediate or timed notification makes every process waiting for it
  runnable.\<close>

definition wake :: "waiting \<Rightarrow> sim \<Rightarrow> sim" where
  "wake ev s =
     s\<lparr>prod_wait := (if prod_wait s = ev then Runnable else prod_wait s),
       cons_wait := (if cons_wait s = ev then Runnable else cons_wait s),
       mon_wait := (if mon_wait s = ev then Runnable else mon_wait s)\<rparr>"

text \<open>\<^verbatim>\<open>producer::main\<close>. \<open>write_return\<close> is lines 67-71 of the call in line 171;
  \<open>after_burst\<close> is lines 175-181; \<open>burst_loop\<close> is the loop of line 169 with
  \<^verbatim>\<open>total_loop\<close>, \<^verbatim>\<open>i\<close> and \<^verbatim>\<open>pd\<close>, up to the next suspension of the process.\<close>

definition write_return :: "u32 \<Rightarrow> sim \<Rightarrow> error + sim" where
  "write_return pd s =
     (case write_body (fifo_inst s) pd of
        Inl e \<Rightarrow> Inl e
      | Inr f \<Rightarrow> Inr (wake On_write_event (s\<lparr>fifo_inst := f, written := written s @ [pd]\<rparr>)))"

definition after_burst :: "int \<Rightarrow> sim \<Rightarrow> sim" where
  "after_burst total_loop s =
     (if total_loop \<le> 0 then s\<lparr>done_next := True, prod_wait := Terminated\<rparr>
      else s\<lparr>prod_at := P_paced total_loop, prod_wait := Until (time_stamp s + 1000)\<rparr>)"

function burst_loop :: "int \<Rightarrow> int \<Rightarrow> u32 \<Rightarrow> sim \<Rightarrow> error + sim" where
  "burst_loop total_loop i pd s =
     (let i' = i - 1 in
      if 0 \<le> i' then
        (let pd' = pd + 1 in
         if is_full (fifo_inst s)
         then Inr (s\<lparr>prod_at := P_in_write total_loop i' pd', prod_wait := On_read_event\<rparr>)
         else and_then (write_return pd' s) (burst_loop (total_loop - 1) i' pd'))
      else Inr (after_burst total_loop s))"
  by pat_completeness auto
termination
  by (relation "measure (\<lambda>(total_loop, i, pd, s). nat i)") auto

definition start_burst :: "config \<Rightarrow> int \<Rightarrow> sim \<Rightarrow> error + sim" where
  "start_burst cfg total_loop s =
     burst_loop total_loop (burst_length (rand_max cfg) (rand cfg (rand_calls s))) 0
       (s\<lparr>rand_calls := rand_calls s + 1\<rparr>)"

definition run_producer :: "config \<Rightarrow> sim \<Rightarrow> error + sim" where
  "run_producer cfg s =
     (if prod_wait s = Runnable then
        (case prod_at s of
           P_entry \<Rightarrow> start_burst cfg (quota cfg) s
         | P_in_write total_loop i pd \<Rightarrow>
             and_then (write_return pd s) (burst_loop (total_loop - 1) i pd)
         | P_paced total_loop \<Rightarrow> start_burst cfg total_loop s)
      else Inl Disabled)"

text \<open>\<^verbatim>\<open>consumer::main\<close>: \<open>read_return\<close> is lines 83-89 of the call in line 204
  followed by the \<^verbatim>\<open>wait\<close> of line 207.\<close>

definition read_return :: "sim \<Rightarrow> error + sim" where
  "read_return s =
     (case read_body (fifo_inst s) of
        Inl e \<Rightarrow> Inl e
      | Inr (v, f) \<Rightarrow>
          Inr ((wake On_read_event (s\<lparr>fifo_inst := f, cons_pd := v\<rparr>))
                 \<lparr>cons_at := C_paced, cons_wait := Until (time_stamp s + 100)\<rparr>))"

definition run_consumer :: "sim \<Rightarrow> error + sim" where
  "run_consumer s =
     (if cons_wait s = Runnable then
        (case cons_at s of
           C_in_read \<Rightarrow> read_return s
         | _ \<Rightarrow>
            (let s1 = s\<lparr>fifo_inst := read_enter (time_stamp s) (fifo_inst s)\<rparr> in
             if is_empty (fifo_inst s1)
             then Inr (s1\<lparr>cons_at := C_in_read, cons_wait := On_write_event\<rparr>)
             else read_return s1))
      else Inl Disabled)"

text \<open>\<^verbatim>\<open>top::monitor_thread\<close>: \<open>drain_loop\<close> is the test of line 243 with either
  the \<^verbatim>\<open>wait\<close> of line 245 or the output of line 248 and the return.\<close>

definition drain_loop :: "sim \<Rightarrow> sim" where
  "drain_loop s =
     (if \<not> is_empty (fifo_inst s)
      then s\<lparr>mon_at := M_wait_drain, mon_wait := Until (time_stamp s + 100)\<rparr>
      else s\<lparr>console := console s @ [time_stamp s], mon_wait := Terminated\<rparr>)"

definition run_monitor :: "sim \<Rightarrow> error + sim" where
  "run_monitor s =
     (if mon_wait s = Runnable then
        (case mon_at s of
           M_wait_drain \<Rightarrow> Inr (drain_loop s)
         | _ \<Rightarrow>
            (if \<not> prod_done_sig s
             then Inr (s\<lparr>mon_at := M_wait_done, mon_wait := On_done_change\<rparr>)
             else Inr (drain_loop s)))
      else Inl Disabled)"

text \<open>The kernel. When no process is runnable, the update phase gives the
  signal its requested value and, if that changes it, notifies the processes
  waiting for the change. When nothing is left to update either, time moves
  to the earliest pending time-out.\<close>

definition any_runnable :: "sim \<Rightarrow> bool" where
  "any_runnable s =
     (prod_wait s = Runnable \<or> cons_wait s = Runnable \<or> mon_wait s = Runnable)"

definition update_phase :: "sim \<Rightarrow> error + sim" where
  "update_phase s =
     (if \<not> any_runnable s \<and> done_next s \<noteq> prod_done_sig s
      then Inr (wake On_done_change (s\<lparr>prod_done_sig := done_next s\<rparr>))
      else Inl Disabled)"

fun timeouts :: "waiting list \<Rightarrow> nat list" where
  "timeouts [] = []"
| "timeouts (Until t # ws) = t # timeouts ws"
| "timeouts (w # ws) = timeouts ws"

definition advance_time :: "sim \<Rightarrow> error + sim" where
  "advance_time s =
     (if \<not> any_runnable s \<and> done_next s = prod_done_sig s then
        (case timeouts [prod_wait s, cons_wait s, mon_wait s] of
           [] \<Rightarrow> Inl Disabled
         | t # ts \<Rightarrow> (let t' = fold min ts t in Inr (wake (Until t') (s\<lparr>time_stamp := t'\<rparr>))))
      else Inl Disabled)"

text \<open>The order in which runnable processes run is not fixed by SystemC: a
  run is a list of choices.\<close>

datatype choice = Run_producer | Run_consumer | Run_monitor | Update | Advance_time

fun sim_step :: "config \<Rightarrow> choice \<Rightarrow> sim \<Rightarrow> error + sim" where
  "sim_step cfg Run_producer s = run_producer cfg s"
| "sim_step cfg Run_consumer s = run_consumer s"
| "sim_step cfg Run_monitor s = run_monitor s"
| "sim_step cfg Update s = update_phase s"
| "sim_step cfg Advance_time s = advance_time s"

fun sim_exec :: "config \<Rightarrow> choice list \<Rightarrow> sim \<Rightarrow> error + sim" where
  "sim_exec cfg [] s = Inr s"
| "sim_exec cfg (c # cs) s =
     (case sim_step cfg c s of Inl e \<Rightarrow> Inl e | Inr s' \<Rightarrow> sim_exec cfg cs s')"

text \<open>What the monitor relies on: it prints at most once, it leaves its first
  loop only when the signal is true, and the signal is true only after the
  producer has requested it.\<close>

definition mon_inv :: "sim \<Rightarrow> bool" where
  "mon_inv s =
     ((console s = [] \<or> mon_wait s = Terminated) \<and>
      (mon_at s = M_wait_drain \<longrightarrow> prod_done_sig s) \<and>
      (prod_done_sig s \<longrightarrow> done_next s))"

text \<open>The invariant of the simulation. \<open>prod_ok\<close> ties the producer's program
  counter to what it has written: \<^verbatim>\<open>total_loop\<close> is the quota minus the number of
  completed writes, a burst starts with \<^verbatim>\<open>total_loop\<close> at least 1 and has at most
  20 elements, and a producer resumed inside \<^verbatim>\<open>write\<close> finds room. \<open>cons_ok\<close>: a
  consumer resumed inside \<^verbatim>\<open>read\<close> finds an element. \<open>count_ok\<close>: every element
  written has been read or is in the ring.\<close>

definition prod_ok :: "config \<Rightarrow> sim \<Rightarrow> bool" where
  "prod_ok cfg s =
     (if prod_wait s = Terminated
      then quota cfg \<le> int (length (written s)) \<and> int (length (written s)) \<le> quota cfg + 19
      else (case prod_at s of
              P_entry \<Rightarrow> written s = [] \<and> prod_wait s = Runnable
            | P_in_write total_loop i pd \<Rightarrow>
                total_loop = quota cfg - int (length (written s)) \<and> 0 \<le> i \<and>
                - 18 \<le> total_loop - i \<and>
                (prod_wait s = On_read_event \<or>
                 (prod_wait s = Runnable \<and> \<not> is_full (fifo_inst s)))
            | P_paced total_loop \<Rightarrow>
                total_loop = quota cfg - int (length (written s)) \<and> 1 \<le> total_loop \<and>
                (prod_wait s = Runnable \<or> (\<exists>t. prod_wait s = Until t))))"

definition cons_ok :: "sim \<Rightarrow> bool" where
  "cons_ok s =
     (cons_at s = C_in_read \<longrightarrow>
        cons_wait s = On_write_event \<or> (cons_wait s = Runnable \<and> \<not> is_empty (fifo_inst s)))"

definition count_ok :: "sim \<Rightarrow> bool" where
  "count_ok s =
     (length (written s) =
        unat (read_count (fifo_inst s)) + unat (buffer_size (fifo_inst s)))"

definition sim_inv :: "config \<Rightarrow> sim \<Rightarrow> bool" where
  "sim_inv cfg s = (ring_inv (fifo_inst s) \<and> prod_ok cfg s \<and> cons_ok s \<and> count_ok s)"

text \<open>The state in which every burst but the first begins when the capacity is 3
  and every burst has 3 elements: the ring is empty, the consumer is suspended
  in \<^verbatim>\<open>read\<close>, the monitor waits for the signal, the producer's pause is over.\<close>

definition steady :: "nat \<Rightarrow> int \<Rightarrow> u32 \<Rightarrow> u32 \<Rightarrow> u32 list \<Rightarrow> nat \<Rightarrow> sim" where
  "steady t total_loop r a w c =
     \<lparr>fifo_inst =
        \<lparr>data = [1, 2, 3], fifo_size = 3, wr_ptr = 0, rd_ptr = 0, buffer_size = 0,
         read_count = r, max_buffered = 3, average_acc = a, last_time = t - 700\<rparr>,
      prod_done_sig = False, done_next = False, time_stamp = t,
      prod_wait = Runnable, prod_at = P_paced total_loop,
      cons_wait = On_write_event, cons_at = C_in_read, cons_pd = 3,
      mon_wait = On_done_change, mon_at = M_wait_done, rand_calls = c,
      console = [], written = w\<rparr>"

section \<open>Facts about machine words and the ring\<close>

lemma unat_succ: "x < (y::u32) \<Longrightarrow> unat (x + 1) = Suc (unat x)"
proof -
  assume "x < y"
  then have "unat x < unat y" by (simp add: word_less_nat_alt)
  moreover have "unat y < 2 ^ 32" using unsigned_less [of y] by simp
  ultimately have "unat x + unat (1::u32) < 2 ^ LENGTH(32)" by simp
  then have "unat (x + 1) = unat x + unat (1::u32)" by (simp only: unat_add_lem [THEN iffD1])
  then show ?thesis by simp
qed

lemma unat_pred: "x \<noteq> 0 \<Longrightarrow> unat (x - 1 :: u32) = unat x - 1"
  by (rule unat_minus_one)

lemma mod_shift_neq:
  fixes r k c N :: nat
  assumes "k < c" "c < N"
  shows "(r + k) mod N \<noteq> (r + c) mod N"
proof
  assume eq: "(r + k) mod N = (r + c) mod N"
  have "r + k \<le> r + c" using assms by simp
  then have "N dvd (r + c) - (r + k)"
    using eq mod_eq_dvd_iff_nat [of "r + k" "r + c" N] by simp
  then have "N dvd c - k" by simp
  moreover have "0 < c - k" using assms by simp
  ultimately have "N \<le> c - k" by (rule dvd_imp_le)
  then show False using assms by simp
qed

lemma ring_inv_ctor: "0 < n \<Longrightarrow> ring_inv (fifo_ctor n heap)"
  by (simp add: ring_inv_def fifo_ctor_def word_gt_0)


lemma write_body_ok:
  assumes inv: "ring_inv f" and room: "buffer_size f \<noteq> fifo_size f"
  shows "\<exists>f'. write_body f pd = Inr f' \<and> ring_inv f' \<and>
           contents f' = contents f @ [pd] \<and>
           unat (buffer_size f') = Suc (unat (buffer_size f)) \<and>
           fifo_size f' = fifo_size f \<and> read_count f' = read_count f \<and>
           average_acc f' = average_acc f \<and> max_buffered f' = max_buffered f \<and>
           last_time f' = last_time f"
proof -
  let ?N = "unat (fifo_size f)" and ?r = "unat (rd_ptr f)"
  let ?w = "unat (wr_ptr f)" and ?c = "unat (buffer_size f)"
  from inv have len: "length (data f) = ?N" and rN: "?r < ?N" and wN: "?w < ?N"
    and cN: "?c \<le> ?N" and w: "?w = (?r + ?c) mod ?N"
    by (simp_all add: ring_inv_def word_less_nat_alt word_le_nat_alt)
  from room have "?c \<noteq> ?N" by (simp add: word_unat_eq_iff)
  with cN have c_lt: "?c < ?N" by simp
  have lt_c: "buffer_size f < fifo_size f" using c_lt by (simp add: word_less_nat_alt)
  have lt_w: "wr_ptr f < fifo_size f" using wN by (simp add: word_less_nat_alt)
  have c1: "unat (buffer_size f + 1) = Suc ?c" using lt_c by (rule unat_succ)
  have w1: "unat (wr_ptr f + 1) = Suc ?w" using lt_w by (rule unat_succ)
  have wrap: "(wr_ptr f + 1 = fifo_size f) = (Suc ?w = ?N)"
    using w1 by (metis word_unat_eq_iff)
  define w' where "w' = (if wr_ptr f + 1 = fifo_size f then 0 else wr_ptr f + 1)"
  define f' where "f' = f\<lparr>data := (data f)[?w := pd], wr_ptr := w', buffer_size := buffer_size f + 1\<rparr>"
  have eq: "write_body f pd = Inr f'"
    using wN len by (simp add: write_body_def f'_def w'_def Let_def)
  have uw': "unat w' = Suc ?w mod ?N"
    using wrap w1 wN by (auto simp: w'_def)
  have uw'2: "unat w' = (?r + Suc ?c) mod ?N"
  proof -
    have "Suc ?w mod ?N = (?w + 1) mod ?N" by simp
    also have "\<dots> = ((?r + ?c) mod ?N + 1) mod ?N" using w by simp
    also have "\<dots> = (?r + ?c + 1) mod ?N" by (simp add: mod_Suc_eq)
    finally show ?thesis using uw' by simp
  qed
  have w'N: "unat w' < ?N" using uw' wN by simp
  have inv': "ring_inv f'"
    using len rN w'N c_lt c1 uw'2
    by (simp add: ring_inv_def f'_def word_less_nat_alt word_le_nat_alt)
  have old: "(data f)[?w := pd] ! ((?r + k) mod ?N) = data f ! ((?r + k) mod ?N)" if "k < ?c" for k
  proof -
    have "(?r + k) mod ?N \<noteq> (?r + ?c) mod ?N" using that c_lt by (rule mod_shift_neq)
    then show ?thesis using w by simp
  qed
  have new: "(data f)[?w := pd] ! ((?r + ?c) mod ?N) = pd"
    using w wN len by simp
  have cont: "contents f' = contents f @ [pd]"
    using old new by (simp add: contents_def f'_def c1)
  show ?thesis using eq inv' cont c1 by (simp add: f'_def)
qed

lemma read_body_ok:
  assumes inv: "ring_inv f" and some: "buffer_size f \<noteq> 0"
  shows "\<exists>pd f'. read_body f = Inr (pd, f') \<and> ring_inv f' \<and>
           contents f = pd # contents f' \<and>
           Suc (unat (buffer_size f')) = unat (buffer_size f) \<and>
           fifo_size f' = fifo_size f \<and> read_count f' = read_count f + 1 \<and>
           average_acc f' = average_acc f + buffer_size f \<and>
           max_buffered f' = max (max_buffered f) (buffer_size f) \<and>
           last_time f' = last_time f"
proof -
  let ?N = "unat (fifo_size f)" and ?r = "unat (rd_ptr f)"
  let ?w = "unat (wr_ptr f)" and ?c = "unat (buffer_size f)"
  from inv have len: "length (data f) = ?N" and rN: "?r < ?N" and wN: "?w < ?N"
    and cN: "?c \<le> ?N" and w: "?w = (?r + ?c) mod ?N"
    by (simp_all add: ring_inv_def word_less_nat_alt word_le_nat_alt)
  from some have c_pos: "0 < ?c" by (simp add: unat_gt_0)
  have lt_r: "rd_ptr f < fifo_size f" using rN by (simp add: word_less_nat_alt)
  have r1: "unat (rd_ptr f + 1) = Suc ?r" using lt_r by (rule unat_succ)
  have c1: "unat (buffer_size f - 1) = ?c - 1" using some by (rule unat_pred)
  have wrap: "(rd_ptr f + 1 = fifo_size f) = (Suc ?r = ?N)"
    using r1 by (metis word_unat_eq_iff)
  define r' where "r' = (if rd_ptr f + 1 = fifo_size f then 0 else rd_ptr f + 1)"
  define f' where "f' = (compute_status f)\<lparr>rd_ptr := r', buffer_size := buffer_size f - 1\<rparr>"
  have cs: "data (compute_status f) = data f" "rd_ptr (compute_status f) = rd_ptr f"
    "buffer_size (compute_status f) = buffer_size f" "fifo_size (compute_status f) = fifo_size f"
    "wr_ptr (compute_status f) = wr_ptr f" "last_time (compute_status f) = last_time f"
    "read_count (compute_status f) = read_count f + 1"
    "average_acc (compute_status f) = average_acc f + buffer_size f"
    by (simp_all add: compute_status_def Let_def)
  have csm: "max_buffered (compute_status f) = max (max_buffered f) (buffer_size f)"
    by (auto simp: compute_status_def Let_def max_def)
  have eq: "read_body f = Inr (data f ! ?r, f')"
    using rN len cs by (simp add: read_body_def f'_def r'_def Let_def)
  have ur': "unat r' = Suc ?r mod ?N"
    using wrap r1 rN by (auto simp: r'_def)
  have r'N: "unat r' < ?N" using ur' rN by simp
  have "(unat r' + (?c - 1)) mod ?N = (Suc ?r + (?c - 1)) mod ?N"
    using ur' by (simp add: mod_add_left_eq mod_Suc_eq)
  then have w': "?w = (unat r' + (?c - 1)) mod ?N" using w c_pos by simp
  have inv': "ring_inv f'"
    using len r'N wN cN c1 w' cs
    by (simp add: ring_inv_def f'_def word_less_nat_alt word_le_nat_alt)
  have shift: "(unat r' + k) mod ?N = (?r + Suc k) mod ?N" for k
  proof -
    have "(unat r' + k) mod ?N = (Suc ?r + k) mod ?N" using ur' by (simp add: mod_add_left_eq mod_Suc_eq)
    then show ?thesis by simp
  qed
  have "[0 ..< ?c] = 0 # map Suc [0 ..< ?c - 1]"
    using c_pos by (metis Suc_pred' map_Suc_upt upt_conv_Cons)
  then have "contents f = data f ! (?r mod ?N) # map (\<lambda>k. data f ! ((?r + Suc k) mod ?N)) [0 ..< ?c - 1]"
    by (simp add: contents_def comp_def)
  moreover have "contents f' = map (\<lambda>k. data f ! ((?r + Suc k) mod ?N)) [0 ..< ?c - 1]"
    using shift cs by (simp add: contents_def f'_def c1)
  ultimately have cont: "contents f = data f ! ?r # contents f'" using rN by simp
  show ?thesis using eq inv' cont c1 c_pos cs csm by (simp add: f'_def)
qed

section \<open>One step of the channel keeps its invariant\<close>

lemma ring_inv_reset: "ring_inv f \<Longrightarrow> ring_inv (reset f)"
  by (auto simp: ring_inv_def reset_def word_gt_0)

lemma ring_inv_read_enter: "ring_inv (read_enter t f) = ring_inv f"
  by (simp add: ring_inv_def read_enter_def)


lemma step_chan_inv:
  assumes inv: "chan_inv s"
    and idle: "a = Reset \<Longrightarrow> writer s = W_idle \<and> reader s = R_idle"
  shows "step a s \<noteq> Inl OutOfBounds \<and>
         (\<forall>s'. step a s = Inr s' \<longrightarrow> chan_inv s' \<and> fifo_size (q s') = fifo_size (q s))"
proof (cases a)
  case (Put pd)
  show ?thesis
  proof (cases "writer s = W_idle \<and> buffer_size (q s) \<noteq> fifo_size (q s)")
    case True
    with inv obtain f' where w: "write_body (q s) pd = Inr f'" "ring_inv f'"
      "unat (buffer_size f') = Suc (unat (buffer_size (q s)))" "fifo_size f' = fifo_size (q s)"
      using write_body_ok [of "q s" pd] by (auto simp: chan_inv_def)
    from w(3) have "buffer_size f' \<noteq> 0" by (metis Zero_not_Suc unat_0)
    with w True show ?thesis
      by (auto simp: Let_def Put finish_write_def is_full_def chan_inv_def notify_write_event_def
               split: rproc.splits)
  next
    case False
    with inv show ?thesis
      by (auto simp: Let_def Put is_full_def chan_inv_def split: wproc.splits rproc.splits)
  qed
next
  case Put_resume
  show ?thesis
  proof (cases "writer s")
    case (W_woken pd)
    with inv obtain f' where w: "write_body (q s) pd = Inr f'" "ring_inv f'"
      "unat (buffer_size f') = Suc (unat (buffer_size (q s)))" "fifo_size f' = fifo_size (q s)"
      using write_body_ok [of "q s" pd] by (auto simp: chan_inv_def)
    from w(3) have "buffer_size f' \<noteq> 0" by (metis Zero_not_Suc unat_0)
    with w W_woken show ?thesis
      by (auto simp: Put_resume finish_write_def chan_inv_def notify_write_event_def
               split: rproc.splits)
  qed (simp_all add: Put_resume)
next
  case Take
  show ?thesis
  proof (cases "reader s = R_idle \<and> buffer_size (q s) \<noteq> 0")
    case True
    let ?f = "read_enter (clock s) (q s)"
    have nz: "buffer_size ?f \<noteq> 0" and sz: "fifo_size ?f = fifo_size (q s)"
      using True by (simp_all add: read_enter_def)
    from inv have "ring_inv ?f" by (simp add: ring_inv_read_enter chan_inv_def)
    with nz obtain pd f' where r: "read_body ?f = Inr (pd, f')" "ring_inv f'"
      "Suc (unat (buffer_size f')) = unat (buffer_size ?f)" "fifo_size f' = fifo_size ?f"
      using read_body_ok [of ?f] by blast
    have "unat (buffer_size ?f) \<le> unat (fifo_size ?f)"
      using \<open>ring_inv ?f\<close> by (simp add: ring_inv_def word_le_nat_alt)
    with r(3,4) have "buffer_size f' \<noteq> fifo_size f'" by auto
    with r True sz show ?thesis
      by (auto simp: Let_def Take finish_read_def is_empty_def chan_inv_def notify_read_event_def
               read_enter_def split: wproc.splits)
  next
    case False
    with inv show ?thesis
      by (auto simp: Let_def Take is_empty_def chan_inv_def read_enter_def ring_inv_def
               split: wproc.splits rproc.splits)
  qed
next
  case Take_resume
  show ?thesis
  proof (cases "reader s = R_woken")
    case True
    with inv have nz: "buffer_size (q s) \<noteq> 0" and ri: "ring_inv (q s)"
      by (simp_all add: chan_inv_def)
    then obtain pd f' where r: "read_body (q s) = Inr (pd, f')" "ring_inv f'"
      "Suc (unat (buffer_size f')) = unat (buffer_size (q s))" "fifo_size f' = fifo_size (q s)"
      using read_body_ok [of "q s"] by blast
    have "unat (buffer_size (q s)) \<le> unat (fifo_size (q s))"
      using ri by (simp add: ring_inv_def word_le_nat_alt)
    with r(3,4) have "buffer_size f' \<noteq> fifo_size f'" by auto
    with r True show ?thesis
      by (auto simp: Take_resume finish_read_def chan_inv_def notify_read_event_def
               split: wproc.splits)
  qed (simp add: Take_resume)
next
  case Reset
  with inv idle show ?thesis
    by (auto simp: chan_inv_def ring_inv_reset) (simp add: reset_def)
next
  case (Advance d)
  with inv show ?thesis by (auto simp: chan_inv_def split: wproc.splits rproc.splits)
qed

section \<open>Runs of the channel\<close>

lemma chan_inv_init: "0 < n \<Longrightarrow> chan_inv (chan_init n heap)"
  by (simp add: chan_inv_def chan_init_def ring_inv_ctor)

lemma exec_chan_inv:
  assumes "chan_inv s" and "reset_when_idle as s"
  shows "exec as s \<noteq> Inl OutOfBounds \<and>
         (\<forall>s'. exec as s = Inr s' \<longrightarrow> chan_inv s' \<and> fifo_size (q s') = fifo_size (q s))"
  using assms
proof (induction as arbitrary: s)
  case Nil
  then show ?case by simp
next
  case (Cons a as)
  from Cons.prems have idle: "a = Reset \<Longrightarrow> writer s = W_idle \<and> reader s = R_idle"
    by (simp split: if_splits)
  from step_chan_inv [OF Cons.prems(1) idle]
  have nofault: "step a s \<noteq> Inl OutOfBounds"
    and keep: "\<And>s'. step a s = Inr s' \<Longrightarrow> chan_inv s' \<and> fifo_size (q s') = fifo_size (q s)"
    by auto
  show ?case
  proof (cases "step a s")
    case (Inl e)
    with nofault show ?thesis by simp
  next
    case (Inr s1)
    with Cons.prems have "reset_when_idle as s1" by simp
    with keep [OF Inr] Cons.IH [of s1] Inr show ?thesis by simp
  qed
qed


lemma not_reset_idle: "Reset \<notin> set as \<Longrightarrow> reset_when_idle as s"
  by (induction as arbitrary: s) (auto split: sum.splits)


section \<open>Evaluating runs of the channel\<close>

lemmas chan_eval = chan_init_def fifo_ctor_def finish_write_def finish_read_def write_body_def
  read_body_def compute_status_def read_enter_def is_full_def is_empty_def
  notify_write_event_def notify_read_event_def reset_def Let_def

section \<open>The structural invariant\<close>

text \<open>
  Claim C8, as stated: for any sequence of \<^verbatim>\<open>write\<close>, \<^verbatim>\<open>read\<close> and \<^verbatim>\<open>reset\<close>
  calls on a channel of capacity at least 1, \<open>buffer_size \<le> fifo_size\<close> holds
  after every call. \<^verbatim>\<open>reset\<close> does not check whether a call is in flight. On a
  channel of capacity 1: the reader calls \<^verbatim>\<open>read\<close> and is suspended,
  \<^verbatim>\<open>write(1)\<close> notifies it, the writer calls \<^verbatim>\<open>reset()\<close>, and the resumed \<^verbatim>\<open>read\<close>
  decrements \<^verbatim>\<open>buffer_size\<close> from 0: it is \<open>2^32 - 1\<close>, above the capacity. The run
  does not respect the precondition of \<^verbatim>\<open>reset\<close>.
\<close>

theorem structural_invariant_counterexample:
  "(0::u32) < 1 \<and>
   exec [Take, Put 1, Reset, Take_resume] (chan_init 1 (\<lambda>_. 0)) =
     Inr \<lparr>q = \<lparr>data = [1], fifo_size = 1, wr_ptr = 0, rd_ptr = 0, buffer_size = 4294967295,
              read_count = 1, max_buffered = 0, average_acc = 0, last_time = 0\<rparr>,
          writer = W_idle, reader = R_idle, clock = 0, put_log = [1],
          take_log = [1], occ_log = [0]\<rparr> \<and>
   \<not> buffer_size \<lparr>data = [1], fifo_size = 1, wr_ptr = 0, rd_ptr = 0, buffer_size = 4294967295,
              read_count = 1, max_buffered = 0, average_acc = 0, last_time = 0\<rparr>
     \<le> fifo_size \<lparr>data = [1], fifo_size = 1, wr_ptr = 0, rd_ptr = 0, buffer_size = 4294967295,
              read_count = 1, max_buffered = 0, average_acc = 0, last_time = 0\<rparr> \<and>
   \<not> reset_when_idle [Take, Put 1, Reset, Take_resume] (chan_init 1 (\<lambda>_. 0))"
proof -
  have "\<not> (4294967295::u32) \<le> 1" by (simp add: word_le_nat_alt)
  then show ?thesis by (simp add: chan_eval)
qed

text \<open>
  Claim C8, amended: for a channel created with capacity at least 1 and any run
  of \<^verbatim>\<open>write\<close>, \<^verbatim>\<open>read\<close> and \<^verbatim>\<open>reset\<close> calls by one writer and one reader, with
  \<^verbatim>\<open>reset\<close> called only while no call is in flight, no access to \<^verbatim>\<open>data\<close> is
  out of bounds and after every step \<open>buffer_size \<le> fifo_size\<close>,
  \<open>rd_ptr < fifo_size\<close> and \<open>wr_ptr < fifo_size\<close>, the capacity being unchanged.
\<close>

theorem structural_invariant:
  assumes "0 < n" and "reset_when_idle as (chan_init n heap)"
  shows "exec as (chan_init n heap) \<noteq> Inl OutOfBounds \<and>
         (\<forall>s. exec as (chan_init n heap) = Inr s \<longrightarrow>
            buffer_size (q s) \<le> fifo_size (q s) \<and> rd_ptr (q s) < fifo_size (q s) \<and>
            wr_ptr (q s) < fifo_size (q s) \<and> fifo_size (q s) = n)"
proof -
  have "chan_inv (chan_init n heap)" using assms(1) by (rule chan_inv_init)
  from exec_chan_inv [OF this assms(2)] show ?thesis
    by (auto simp: chan_inv_def ring_inv_def) (simp add: chan_init_def fifo_ctor_def)
qed

theorem structural_invariant_witness:
  "(0::u32) < 2 \<and>
   reset_when_idle [Put 1, Put 2, Put 3, Take, Put_resume, Reset, Take] (chan_init 2 (\<lambda>_. 0)) \<and>
   exec [Put 1, Put 2, Put 3, Take, Put_resume, Reset, Take] (chan_init 2 (\<lambda>_. 0)) =
     Inr \<lparr>q = \<lparr>data = [3, 2], fifo_size = 2, wr_ptr = 0, rd_ptr = 0, buffer_size = 0,
              read_count = 1, max_buffered = 2, average_acc = 2, last_time = 0\<rparr>,
          writer = W_idle, reader = R_waiting, clock = 0, put_log = [1, 2, 3],
          take_log = [1], occ_log = [2]\<rparr> \<and>
   (0::u32) \<le> 2 \<and> (0::u32) < 2"
  using structural_invariant [of 2 "[Put 1, Put 2, Put 3, Take, Put_resume, Reset, Take]" "\<lambda>_. 0"]
  by (simp add: chan_eval upt_rec)

section \<open>First in, first out\<close>



section \<open>What reset changes\<close>

text \<open>
  Claim C10. \<^verbatim>\<open>reset\<close> sets \<^verbatim>\<open>buffer_size\<close>, \<^verbatim>\<open>rd_ptr\<close> and \<^verbatim>\<open>wr_ptr\<close> to 0 and
  changes no other member: the capacity, the three statistics counters,
  \<^verbatim>\<open>last_time\<close> and the stored elements stay as they are.
\<close>

theorem reset_frame:
  "buffer_size (reset f) = 0 \<and> rd_ptr (reset f) = 0 \<and> wr_ptr (reset f) = 0 \<and>
   fifo_size (reset f) = fifo_size f \<and> read_count (reset f) = read_count f \<and>
   average_acc (reset f) = average_acc f \<and> max_buffered (reset f) = max_buffered f \<and>
   last_time (reset f) = last_time f \<and> data (reset f) = data f"
  by (simp add: reset_def)

section \<open>The range of the burst length\<close>

lemma burst_length_range:
  assumes "0 < m" and "r \<le> m"
  shows "1 \<le> burst_length m r \<and> burst_length m r \<le> 20"
proof -
  have "19 * r \<le> 19 * m" using assms(2) by simp
  then have "(19 * r) div m \<le> (19 * m) div m" by (rule div_le_mono)
  then have "(19 * r) div m \<le> 19" using assms(1) by simp
  then show ?thesis by (simp add: burst_length_def)
qed

lemma burst_length_below_max:
  assumes "r < m"
  shows "burst_length m r \<le> 19"
proof -
  have "19 * r < 19 * m" using assms by simp
  then have "(19 * r) div m < 19" using assms by (simp add: less_mult_imp_div_less mult.commute)
  then show ?thesis by (simp add: burst_length_def)
qed

text \<open>
  Claim C5. The burst length drawn in line 166 is said to lie in 1..19 for every
  value of the random source, as the comment on that line says. Below
  \<^verbatim>\<open>RAND_MAX\<close> it does (\<open>burst_length_below_max\<close>). When \<^verbatim>\<open>rand()\<close> returns
  \<^verbatim>\<open>RAND_MAX\<close> (here the value of the GNU C library), product and quotient are
  exact, the quotient is 19 and the burst length is 20.
\<close>

theorem burst_length_twenty: "burst_length 2147483647 2147483647 = 20"
  by (simp add: burst_length_def)

section \<open>The report of the destructor\<close>

text \<open>
  Claim C4. The destructor is said to guard the divisions by \<^verbatim>\<open>read_count\<close>.
  For a channel that is destroyed before any \<^verbatim>\<open>read\<close>, \<^verbatim>\<open>read_count\<close> is 0 and
  both reported averages are the result of dividing 0 by 0, whatever the
  division does with it.
\<close>

theorem dtor_divides_by_zero:
  "read_count (fifo_ctor n heap) = 0 \<and>
   avg_fill_depth (fifo_dtor fdiv tdiv (fifo_ctor n heap)) = fdiv 0 0 \<and>
   avg_time_per_pd (fifo_dtor fdiv tdiv (fifo_ctor n heap)) = tdiv 0 0"
  by (simp add: fifo_dtor_def fifo_ctor_def)

section \<open>The statistics\<close>

lemma write_body_frame:
  assumes "write_body f pd = Inr f'"
  shows "read_count f' = read_count f \<and> average_acc f' = average_acc f \<and>
         max_buffered f' = max_buffered f \<and> last_time f' = last_time f \<and>
         fifo_size f' = fifo_size f"
  using assms by (auto simp: write_body_def Let_def split: if_splits)

lemma read_body_frame:
  assumes "read_body f = Inr (pd, f')"
  shows "read_count f' = read_count f + 1 \<and> average_acc f' = average_acc f + buffer_size f \<and>
         max_buffered f' = max (max_buffered f) (buffer_size f) \<and> last_time f' = last_time f \<and>
         fifo_size f' = fifo_size f"
  using assms by (auto simp: read_body_def compute_status_def Let_def max_def split: if_splits)

lemma finish_write_frame:
  assumes "finish_write s pd = Inr s'"
  shows "read_count (q s') = read_count (q s) \<and> average_acc (q s') = average_acc (q s) \<and>
         max_buffered (q s') = max_buffered (q s) \<and> last_time (q s') = last_time (q s) \<and>
         occ_log s' = occ_log s \<and> clock s' = clock s"
proof -
  from assms obtain f' where f': "write_body (q s) pd = Inr f'"
    and s': "s' = notify_write_event (s\<lparr>q := f', writer := W_idle\<rparr>)"
    by (auto simp: finish_write_def split: sum.splits)
  from write_body_frame [OF f'] s' show ?thesis by (simp add: notify_write_event_def)
qed

lemma finish_read_frame:
  assumes "finish_read s = Inr s'"
  shows "read_count (q s') = read_count (q s) + 1 \<and>
         average_acc (q s') = average_acc (q s) + buffer_size (q s) \<and>
         max_buffered (q s') = max (max_buffered (q s)) (buffer_size (q s)) \<and>
         last_time (q s') = last_time (q s) \<and>
         occ_log s' = occ_log s @ [buffer_size (q s)] \<and> clock s' = clock s"
proof -
  from assms obtain pd f' where f': "read_body (q s) = Inr (pd, f')"
    and s': "s' = notify_read_event (s\<lparr>q := f', reader := R_idle, take_log := take_log s @ [pd],
                   occ_log := occ_log s @ [buffer_size (q s)]\<rparr>)"
    by (auto simp: finish_read_def split: sum.splits)
  from read_body_frame [OF f'] s' show ?thesis
    by (simp add: notify_read_event_def split: wproc.splits)
qed

lemma step_stats_inv:
  assumes "stats_inv s" and "step a s = Inr s'"
  shows "stats_inv s'"
proof (cases a)
  case (Put pd)
  with assms show ?thesis
    by (auto simp: stats_inv_def Let_def split: if_splits dest!: finish_write_frame)
next
  case Put_resume
  with assms show ?thesis
    by (auto simp: stats_inv_def split: wproc.splits dest!: finish_write_frame)
next
  case Take
  with assms show ?thesis
    by (auto simp: stats_inv_def Let_def read_enter_def max.commute split: if_splits
             dest!: finish_read_frame)
next
  case Take_resume
  with assms show ?thesis
    by (auto simp: stats_inv_def max.commute split: if_splits dest!: finish_read_frame)
next
  case Reset
  with assms show ?thesis by (auto simp: stats_inv_def reset_def split: if_splits)
next
  case (Advance d)
  with assms show ?thesis by (auto simp: stats_inv_def)
qed

lemma exec_stats_inv:
  assumes "stats_inv s" and "exec as s = Inr s'"
  shows "stats_inv s'"
  using assms
proof (induction as arbitrary: s)
  case Nil
  then show ?case by simp
next
  case (Cons a as)
  from Cons.prems(2) obtain s1 where s1: "step a s = Inr s1" "exec as s1 = Inr s'"
    by (auto split: sum.splits)
  from Cons.prems(1) s1(1) have "stats_inv s1" by (rule step_stats_inv)
  then show ?case using s1(2) by (rule Cons.IH)
qed

lemma stats_inv_init: "stats_inv (chan_init n heap)"
  by (simp add: stats_inv_def chan_init_def fifo_ctor_def)

lemma unat_sum_list:
  fixes xs :: "u32 list"
  assumes "sum_list (map unat xs) < 2 ^ 32"
  shows "unat (sum_list xs) = sum_list (map unat xs)"
  using assms
proof (induction xs)
  case Nil
  then show ?case by simp
next
  case (Cons x xs)
  then have ih: "unat (sum_list xs) = sum_list (map unat xs)" by simp
  from Cons.prems have "unat x + unat (sum_list xs) < 2 ^ LENGTH(32)" using ih by simp
  then have "unat (x + sum_list xs) = unat x + unat (sum_list xs)"
    by (simp only: unat_add_lem [THEN iffD1])
  then show ?case using ih by simp
qed

lemma unat_max: "unat (max a b :: u32) = max (unat a) (unat b)"
  by (auto simp: max_def word_le_nat_alt)

lemma unat_fold_max:
  fixes xs :: "u32 list"
  shows "unat (fold max xs a) = fold max (map unat xs) (unat a)"
  by (induction xs arbitrary: a) (simp_all add: unat_max)

lemma fold_max_zero:
  fixes ys :: "nat list"
  assumes "ys \<noteq> []"
  shows "fold max ys 0 = Max (set ys)"
proof (cases ys)
  case Nil
  with assms show ?thesis by simp
next
  case (Cons y zs)
  then show ?thesis using Max.set_eq_fold [of y zs] by simp
qed

lemma unat_of_nat_small: "k < 2 ^ 32 \<Longrightarrow> unat (of_nat k :: u32) = k"
  by (simp add: unat_of_nat)

lemma exec_append:
  "exec (as @ bs) s = (case exec as s of Inl e \<Rightarrow> Inl e | Inr s' \<Rightarrow> exec bs s')"
  by (induction as arbitrary: s) (auto split: sum.splits)

lemma put_take_pair:
  "exec [Put 1, Take]
     \<lparr>q = \<lparr>data = [1], fifo_size = 1, wr_ptr = 0, rd_ptr = 0, buffer_size = 0,
            read_count = of_nat j, max_buffered = 1, average_acc = of_nat j, last_time = 0\<rparr>,
      writer = W_idle, reader = R_idle, clock = 0, put_log = replicate j 1,
      take_log = replicate j 1, occ_log = replicate j 1\<rparr> =
   Inr \<lparr>q = \<lparr>data = [1], fifo_size = 1, wr_ptr = 0, rd_ptr = 0, buffer_size = 0,
            read_count = of_nat (Suc j), max_buffered = 1, average_acc = of_nat (Suc j),
            last_time = 0\<rparr>,
      writer = W_idle, reader = R_idle, clock = 0, put_log = replicate (Suc j) 1,
      take_log = replicate (Suc j) 1, occ_log = replicate (Suc j) 1\<rparr>"
  by (simp add: chan_eval replicate_append_same)

lemma put_take_pairs:
  "exec (concat (replicate k [Put 1, Take]))
     \<lparr>q = \<lparr>data = [1], fifo_size = 1, wr_ptr = 0, rd_ptr = 0, buffer_size = 0,
            read_count = of_nat j, max_buffered = 1, average_acc = of_nat j, last_time = 0\<rparr>,
      writer = W_idle, reader = R_idle, clock = 0, put_log = replicate j 1,
      take_log = replicate j 1, occ_log = replicate j 1\<rparr> =
   Inr \<lparr>q = \<lparr>data = [1], fifo_size = 1, wr_ptr = 0, rd_ptr = 0, buffer_size = 0,
            read_count = of_nat (j + k), max_buffered = 1, average_acc = of_nat (j + k),
            last_time = 0\<rparr>,
      writer = W_idle, reader = R_idle, clock = 0, put_log = replicate (j + k) 1,
      take_log = replicate (j + k) 1, occ_log = replicate (j + k) 1\<rparr>"
proof (induction k arbitrary: j)
  case 0
  show ?case by simp
next
  case (Suc k)
  have "concat (replicate (Suc k) [Put 1, Take]) = [Put 1, Take] @ concat (replicate k [Put 1, Take])"
    by simp
  then show ?case
    using Suc.IH [of "Suc j"] by (simp only: exec_append put_take_pair sum.case add_Suc_shift)
qed

lemma first_pair:
  "exec [Put 1, Take] (chan_init 1 (\<lambda>_. 1)) =
   Inr \<lparr>q = \<lparr>data = [1], fifo_size = 1, wr_ptr = 0, rd_ptr = 0, buffer_size = 0,
            read_count = of_nat (Suc 0), max_buffered = 1, average_acc = of_nat (Suc 0),
            last_time = 0\<rparr>,
      writer = W_idle, reader = R_idle, clock = 0, put_log = replicate (Suc 0) 1,
      take_log = replicate (Suc 0) 1, occ_log = replicate (Suc 0) 1\<rparr>"
  by (simp add: chan_eval)

lemma wrapped_run:
  "exec (concat (replicate (Suc k) [Put 1, Take])) (chan_init 1 (\<lambda>_. 1)) =
   Inr \<lparr>q = \<lparr>data = [1], fifo_size = 1, wr_ptr = 0, rd_ptr = 0, buffer_size = 0,
            read_count = of_nat (Suc k), max_buffered = 1, average_acc = of_nat (Suc k),
            last_time = 0\<rparr>,
      writer = W_idle, reader = R_idle, clock = 0, put_log = replicate (Suc k) 1,
      take_log = replicate (Suc k) 1, occ_log = replicate (Suc k) 1\<rparr>"
proof -
  have "concat (replicate (Suc k) [Put 1, Take]) = [Put 1, Take] @ concat (replicate k [Put 1, Take])"
    by simp
  then show ?thesis
    using put_take_pairs [of k "Suc 0"]
    by (simp only: exec_append first_pair sum.case add_Suc add_0)
qed

text \<open>
  Claim C3, as stated: after K reads with occupancies \<open>o\<^sub>1 \<dots> o\<^sub>K\<close> before the
  removals, the reported average is their sum divided by K. The counters are
  32 bits wide: after \<open>2^32\<close> reads from a channel of capacity 1, every one of
  them at occupancy 1, \<^verbatim>\<open>average_acc\<close> and \<^verbatim>\<open>read_count\<close> are both 0 again and the
  destructor divides 0 by 0.
\<close>

theorem statistics_law_counterexample:
  "exec (concat (replicate 4294967296 [Put 1, Take])) (chan_init 1 (\<lambda>_. 1)) =
     Inr \<lparr>q = \<lparr>data = [1], fifo_size = 1, wr_ptr = 0, rd_ptr = 0, buffer_size = 0,
              read_count = 0, max_buffered = 1, average_acc = 0, last_time = 0\<rparr>,
          writer = W_idle, reader = R_idle, clock = 0, put_log = replicate 4294967296 1,
          take_log = replicate 4294967296 1, occ_log = replicate 4294967296 1\<rparr> \<and>
   sum_list (map unat (replicate 4294967296 (1::u32))) = 4294967296 \<and>
   length (replicate 4294967296 (1::u32)) = 4294967296 \<and>
   avg_fill_depth (fifo_dtor Pair Pair
     \<lparr>data = [1], fifo_size = 1, wr_ptr = 0, rd_ptr = 0, buffer_size = 0,
      read_count = 0, max_buffered = 1, average_acc = 0, last_time = 0\<rparr>) = (0, 0)"
proof -
  have n: "(4294967296::nat) = Suc 4294967295" by simp
  have z: "(of_nat (Suc 4294967295) :: u32) = 0" by simp
  have "exec (concat (replicate (Suc 4294967295) [Put 1, Take])) (chan_init 1 (\<lambda>_. 1)) =
     Inr \<lparr>q = \<lparr>data = [1], fifo_size = 1, wr_ptr = 0, rd_ptr = 0, buffer_size = 0,
              read_count = 0, max_buffered = 1, average_acc = 0, last_time = 0\<rparr>,
          writer = W_idle, reader = R_idle, clock = 0,
          put_log = replicate (Suc 4294967295) 1,
          take_log = replicate (Suc 4294967295) 1, occ_log = replicate (Suc 4294967295) 1\<rparr>"
    unfolding wrapped_run z ..
  then show ?thesis
    unfolding n by (simp add: fifo_dtor_def sum_list_replicate)
qed

text \<open>
  Claim C3, amended: as long as the number of reads and the sum of the
  occupancies observed immediately before each removal stay below \<open>2^32\<close>, the
  destructor divides exactly that sum by exactly that number, \<^verbatim>\<open>max_buffered\<close> is
  the largest of these occupancies, and the reported total is the number of
  reads. The occupancy enters the sum before line 86 decrements it.
\<close>

theorem statistics_law:
  assumes "exec as (chan_init n heap) = Inr s" and "occ_log s \<noteq> []"
    and "sum_list (map unat (occ_log s)) < 2 ^ 32" and "length (occ_log s) < 2 ^ 32"
  shows "avg_fill_depth (fifo_dtor fdiv tdiv (q s)) =
           fdiv (sum_list (map unat (occ_log s))) (length (occ_log s)) \<and>
         unat (max_buffered (q s)) = Max (set (map unat (occ_log s))) \<and>
         unat (total_pd (fifo_dtor fdiv tdiv (q s))) = length (occ_log s)"
proof -
  have "stats_inv s" using stats_inv_init assms(1) by (rule exec_stats_inv)
  then have acc: "average_acc (q s) = sum_list (occ_log s)"
    and cnt: "read_count (q s) = of_nat (length (occ_log s))"
    and mx: "max_buffered (q s) = fold max (occ_log s) 0"
    by (simp_all add: stats_inv_def)
  have 1: "unat (average_acc (q s)) = sum_list (map unat (occ_log s))"
    using acc assms(3) by (simp add: unat_sum_list)
  have 2: "unat (read_count (q s)) = length (occ_log s)"
    using cnt assms(4) by (simp add: unat_of_nat_small)
  have "unat (max_buffered (q s)) = fold max (map unat (occ_log s)) 0"
    using mx by (simp add: unat_fold_max)
  also have "\<dots> = Max (set (map unat (occ_log s)))"
    using assms(2) by (intro fold_max_zero) simp
  finally show ?thesis using 1 2 by (simp add: fifo_dtor_def)
qed

theorem statistics_law_witness:
  "exec [Put 4, Put 5, Take, Put 6, Take, Take] (chan_init 2 (\<lambda>_. 0)) =
     Inr \<lparr>q = \<lparr>data = [6, 5], fifo_size = 2, wr_ptr = 1, rd_ptr = 1, buffer_size = 0,
              read_count = 3, max_buffered = 2, average_acc = 5, last_time = 0\<rparr>,
          writer = W_idle, reader = R_idle, clock = 0, put_log = [4, 5, 6],
          take_log = [4, 5, 6], occ_log = [2, 2, 1]\<rparr> \<and>
   avg_fill_depth (fifo_dtor Pair Pair
     \<lparr>data = [6, 5], fifo_size = 2, wr_ptr = 1, rd_ptr = 1, buffer_size = 0,
      read_count = 3, max_buffered = 2, average_acc = 5, last_time = 0\<rparr>) = (5, 3) \<and>
   unat (2 :: u32) = Max {2, 2, 1}"
  using statistics_law [of "[Put 4, Put 5, Take, Put 6, Take, Take]" 2 "\<lambda>_. 0" _ Pair Pair]
  by (simp add: chan_eval upt_rec)

section \<open>Resuming a suspended call\<close>

text \<open>
  Claim C2, as stated: after any wake-up the guard is tested again and the call
  reads or writes only when the guard allows it. Lines 62 and 78 are \<^verbatim>\<open>if\<close>
  statements: the resumed call continues at line 67 or 83. In the run below
  the reader is suspended on the empty channel, \<^verbatim>\<open>write(1)\<close> notifies it, and the
  writer calls \<^verbatim>\<open>reset()\<close> before the reader runs (against the precondition of
  \<^verbatim>\<open>reset\<close>, which the code does not check). The resumed \<^verbatim>\<open>read\<close> takes a value
  from the empty channel and \<^verbatim>\<open>buffer_size\<close> wraps to \<open>2^32 - 1\<close>.
\<close>

theorem resumption_counterexample:
  "exec [Take, Put 1, Reset] (chan_init 1 (\<lambda>_. 0)) =
     Inr \<lparr>q = \<lparr>data = [1], fifo_size = 1, wr_ptr = 0, rd_ptr = 0, buffer_size = 0,
              read_count = 0, max_buffered = 0, average_acc = 0, last_time = 0\<rparr>,
          writer = W_idle, reader = R_woken, clock = 0, put_log = [1],
          take_log = [], occ_log = []\<rparr> \<and>
   is_empty \<lparr>data = [1], fifo_size = 1, wr_ptr = 0, rd_ptr = 0, buffer_size = 0,
              read_count = 0, max_buffered = 0, average_acc = 0, last_time = 0\<rparr> \<and>
   step Take_resume
     \<lparr>q = \<lparr>data = [1], fifo_size = 1, wr_ptr = 0, rd_ptr = 0, buffer_size = 0,
            read_count = 0, max_buffered = 0, average_acc = 0, last_time = 0\<rparr>,
      writer = W_idle, reader = R_woken, clock = 0, put_log = [1],
      take_log = [], occ_log = []\<rparr> =
     Inr \<lparr>q = \<lparr>data = [1], fifo_size = 1, wr_ptr = 0, rd_ptr = 0, buffer_size = 4294967295,
              read_count = 1, max_buffered = 0, average_acc = 0, last_time = 0\<rparr>,
          writer = W_idle, reader = R_idle, clock = 0, put_log = [1],
          take_log = [1], occ_log = [0]\<rparr>"
  by (simp add: chan_eval)

text \<open>
  Claim C2, amended: the guard is tested once, when the call is made; a resumed
  \<^verbatim>\<open>write\<close> or \<^verbatim>\<open>read\<close> continues with lines 67-71 or 83-89 without testing it
  again. With one writer and one reader and \<^verbatim>\<open>reset\<close> called only while no
  call is in flight, the guard holds at every resumption all the same: the
  channel is not full when a suspended \<^verbatim>\<open>write\<close> resumes and not empty when a
  suspended \<^verbatim>\<open>read\<close> resumes.
\<close>

theorem resumption_guard:
  assumes "0 < n" and "reset_when_idle as (chan_init n heap)"
    and "exec as (chan_init n heap) = Inr s"
  shows "(\<forall>pd. writer s = W_woken pd \<longrightarrow>
            \<not> is_full (q s) \<and> step Put_resume s = finish_write s pd) \<and>
         (reader s = R_woken \<longrightarrow> \<not> is_empty (q s) \<and> step Take_resume s = finish_read s)"
proof -
  have "chan_inv (chan_init n heap)" using assms(1) by (rule chan_inv_init)
  from exec_chan_inv [OF this assms(2)] assms(3) have "chan_inv s" by simp
  then show ?thesis by (auto simp: chan_inv_def is_full_def is_empty_def)
qed

theorem resumption_guard_witness:
  "(0::u32) < 1 \<and>
   reset_when_idle [Put 1, Put 2, Take] (chan_init 1 (\<lambda>_. 0)) \<and>
   exec [Put 1, Put 2, Take] (chan_init 1 (\<lambda>_. 0)) =
     Inr \<lparr>q = \<lparr>data = [1], fifo_size = 1, wr_ptr = 0, rd_ptr = 0, buffer_size = 0,
              read_count = 1, max_buffered = 1, average_acc = 1, last_time = 0\<rparr>,
          writer = W_woken 2, reader = R_idle, clock = 0, put_log = [1, 2],
          take_log = [1], occ_log = [1]\<rparr> \<and>
   \<not> is_full \<lparr>data = [1], fifo_size = 1, wr_ptr = 0, rd_ptr = 0, buffer_size = 0,
              read_count = 1, max_buffered = 1, average_acc = 1, last_time = 0\<rparr> \<and>
   reset_when_idle [Take, Put 1] (chan_init 1 (\<lambda>_. 0)) \<and>
   exec [Take, Put 1] (chan_init 1 (\<lambda>_. 0)) =
     Inr \<lparr>q = \<lparr>data = [1], fifo_size = 1, wr_ptr = 0, rd_ptr = 0, buffer_size = 1,
              read_count = 0, max_buffered = 0, average_acc = 0, last_time = 0\<rparr>,
          writer = W_idle, reader = R_woken, clock = 0, put_log = [1],
          take_log = [], occ_log = []\<rparr> \<and>
   \<not> is_empty \<lparr>data = [1], fifo_size = 1, wr_ptr = 0, rd_ptr = 0, buffer_size = 1,
              read_count = 0, max_buffered = 0, average_acc = 0, last_time = 0\<rparr>"
  using resumption_guard [of 1 "[Put 1, Put 2, Take]" "\<lambda>_. 0"]
    resumption_guard [of 1 "[Take, Put 1]" "\<lambda>_. 0"]
  by (simp add: chan_eval)

section \<open>What a step of a process leaves unchanged\<close>

declare burst_loop.simps [simp del]

lemma wake_frame [simp]:
  "fifo_inst (wake ev s) = fifo_inst s" "console (wake ev s) = console s"
  "time_stamp (wake ev s) = time_stamp s" "prod_done_sig (wake ev s) = prod_done_sig s"
  "done_next (wake ev s) = done_next s" "written (wake ev s) = written s"
  "prod_at (wake ev s) = prod_at s" "cons_at (wake ev s) = cons_at s"
  "mon_at (wake ev s) = mon_at s" "rand_calls (wake ev s) = rand_calls s"
  "cons_pd (wake ev s) = cons_pd s"
  by (simp_all add: wake_def)

lemma wake_Terminated:
  "ev \<noteq> Terminated \<Longrightarrow> (mon_wait (wake ev s) = Terminated) = (mon_wait s = Terminated)"
  "ev \<noteq> Terminated \<Longrightarrow> (prod_wait (wake ev s) = Terminated) = (prod_wait s = Terminated)"
  "ev \<noteq> Terminated \<Longrightarrow> (cons_wait (wake ev s) = Terminated) = (cons_wait s = Terminated)"
  by (auto simp: wake_def)

lemma write_return_frame:
  assumes "write_return pd s = Inr s'"
  shows "console s' = console s \<and> time_stamp s' = time_stamp s \<and>
         prod_done_sig s' = prod_done_sig s \<and> done_next s' = done_next s \<and>
         last_time (fifo_inst s') = last_time (fifo_inst s) \<and>
         (mon_wait s' = Terminated) = (mon_wait s = Terminated) \<and> mon_at s' = mon_at s"
proof -
  from assms obtain f where f: "write_body (fifo_inst s) pd = Inr f"
    and s': "s' = wake On_write_event (s\<lparr>fifo_inst := f, written := written s @ [pd]\<rparr>)"
    by (auto simp: write_return_def split: sum.splits)
  from write_body_frame [OF f] s' show ?thesis by (simp add: wake_Terminated)
qed

lemma burst_loop_frame:
  assumes "burst_loop total_loop i pd s = Inr s'"
  shows "console s' = console s \<and> time_stamp s' = time_stamp s \<and>
         prod_done_sig s' = prod_done_sig s \<and>
         last_time (fifo_inst s') = last_time (fifo_inst s) \<and>
         (mon_wait s' = Terminated) = (mon_wait s = Terminated) \<and> mon_at s' = mon_at s \<and>
         (done_next s \<longrightarrow> done_next s')"
  using assms
proof (induction total_loop i pd s rule: burst_loop.induct)
  case (1 total_loop i pd s)
  show ?case
  proof (cases "0 \<le> i - 1")
    case False
    with "1.prems" have "s' = after_burst total_loop s"
      by (simp add: burst_loop.simps [of total_loop i pd s])
    then show ?thesis by (simp add: after_burst_def)
  next
    case True
    show ?thesis
    proof (cases "is_full (fifo_inst s)")
      case full: True
      with True "1.prems" have
        "s' = s\<lparr>prod_at := P_in_write total_loop (i - 1) (pd + 1), prod_wait := On_read_event\<rparr>"
        by (simp add: burst_loop.simps [of total_loop i pd s])
      then show ?thesis by simp
    next
      case False
      with True "1.prems" obtain s1 where s1: "write_return (pd + 1) s = Inr s1"
        and rest: "burst_loop (total_loop - 1) (i - 1) (pd + 1) s1 = Inr s'"
        by (cases "write_return (pd + 1) s") (simp_all add: burst_loop.simps [of total_loop i pd s])
      from "1.IH" [OF refl True refl False rest] write_return_frame [OF s1]
      show ?thesis by simp
    qed
  qed
qed

lemma read_return_frame:
  assumes "read_return s = Inr s'"
  shows "console s' = console s \<and> time_stamp s' = time_stamp s \<and>
         prod_done_sig s' = prod_done_sig s \<and> done_next s' = done_next s \<and>
         last_time (fifo_inst s') = last_time (fifo_inst s) \<and>
         (mon_wait s' = Terminated) = (mon_wait s = Terminated) \<and>
         written s' = written s \<and> mon_at s' = mon_at s"
proof -
  from assms obtain v f where f: "read_body (fifo_inst s) = Inr (v, f)"
    and s': "s' = (wake On_read_event (s\<lparr>fifo_inst := f, cons_pd := v\<rparr>))
                    \<lparr>cons_at := C_paced, cons_wait := Until (time_stamp s + 100)\<rparr>"
    by (auto simp: read_return_def split: sum.splits)
  from read_body_frame [OF f] s' show ?thesis by (simp add: wake_Terminated)
qed

lemma run_producer_frame:
  assumes "run_producer cfg s = Inr s'"
  shows "console s' = console s \<and> time_stamp s' = time_stamp s \<and>
         prod_done_sig s' = prod_done_sig s \<and>
         last_time (fifo_inst s') = last_time (fifo_inst s) \<and>
         (mon_wait s' = Terminated) = (mon_wait s = Terminated) \<and> mon_at s' = mon_at s \<and>
         (done_next s \<longrightarrow> done_next s')"
proof (cases "prod_at s")
  case P_entry
  with assms have "burst_loop (quota cfg) (burst_length (rand_max cfg) (rand cfg (rand_calls s))) 0
      (s\<lparr>rand_calls := rand_calls s + 1\<rparr>) = Inr s'"
    by (simp add: run_producer_def start_burst_def split: if_splits)
  from burst_loop_frame [OF this] show ?thesis by simp
next
  case (P_in_write total_loop i pd)
  with assms obtain s1 where s1: "write_return pd s = Inr s1"
    and rest: "burst_loop (total_loop - 1) i pd s1 = Inr s'"
    by (cases "write_return pd s") (simp_all add: run_producer_def split: if_splits)
  from burst_loop_frame [OF rest] write_return_frame [OF s1] show ?thesis by simp
next
  case (P_paced total_loop)
  with assms have "burst_loop total_loop (burst_length (rand_max cfg) (rand cfg (rand_calls s))) 0
      (s\<lparr>rand_calls := rand_calls s + 1\<rparr>) = Inr s'"
    by (simp add: run_producer_def start_burst_def split: if_splits)
  from burst_loop_frame [OF this] show ?thesis by simp
qed

lemma run_consumer_frame:
  assumes "run_consumer s = Inr s'"
  shows "console s' = console s \<and> time_stamp s' = time_stamp s \<and>
         prod_done_sig s' = prod_done_sig s \<and> done_next s' = done_next s \<and>
         mon_at s' = mon_at s \<and>
         (mon_wait s' = Terminated) = (mon_wait s = Terminated) \<and>
         last_time (fifo_inst s') =
           (if cons_at s \<noteq> C_in_read then time_stamp s else last_time (fifo_inst s))"
proof (cases "cons_at s = C_in_read")
  case True
  with assms have "read_return s = Inr s'" by (simp add: run_consumer_def split: if_splits)
  from read_return_frame [OF this] True show ?thesis by simp
next
  case False
  let ?s1 = "s\<lparr>fifo_inst := read_enter (time_stamp s) (fifo_inst s)\<rparr>"
  from False assms have alt: "(is_empty (fifo_inst ?s1) \<and>
        s' = ?s1\<lparr>cons_at := C_in_read, cons_wait := On_write_event\<rparr>) \<or>
      read_return ?s1 = Inr s'"
    by (cases "cons_at s") (auto simp: run_consumer_def Let_def split: if_splits)
  then show ?thesis
  proof
    assume "is_empty (fifo_inst ?s1) \<and> s' = ?s1\<lparr>cons_at := C_in_read, cons_wait := On_write_event\<rparr>"
    with False show ?thesis by (simp add: read_enter_def)
  next
    assume "read_return ?s1 = Inr s'"
    from read_return_frame [OF this] False show ?thesis by (simp add: read_enter_def)
  qed
qed

lemma other_steps_frame:
  assumes "c = Run_monitor \<or> c = Update \<or> c = Advance_time" and "sim_step cfg c s = Inr s'"
  shows "last_time (fifo_inst s') = last_time (fifo_inst s)"
  using assms
  by (auto simp: run_monitor_def drain_loop_def update_phase_def advance_time_def Let_def
           split: if_splits mon_pc.splits list.splits)

section \<open>Evaluating runs of the simulation\<close>

lemmas sim_eval = top_ctor_def fifo_ctor_def run_producer_def start_burst_def burst_length_def
  burst_loop.simps write_return_def write_body_def wake_def is_full_def is_empty_def
  after_burst_def Let_def run_consumer_def read_return_def read_body_def read_enter_def
  compute_status_def run_monitor_def drain_loop_def update_phase_def advance_time_def
  any_runnable_def upt_rec

section \<open>When the time of a read is recorded\<close>

text \<open>
  Claim C6, as stated: \<^verbatim>\<open>last_time\<close> is recorded after the resumption, immediately
  before the element is removed, and so equals the time of the removal. Line 76
  precedes the test and the \<^verbatim>\<open>wait\<close>. In the program as shipped (capacity 10,
  quota 10000), with \<^verbatim>\<open>rand()\<close> returning 0 twice (bursts of one element): the
  consumer calls \<^verbatim>\<open>read\<close> at 100 ns on the empty channel and is suspended; the
  producer writes at 1000 ns; the consumer resumes and removes the element at
  1000 ns, and \<^verbatim>\<open>last_time\<close> is still 100 ns.
\<close>

theorem last_time_counterexample:
  "sim_exec \<lparr>rand_max = 2147483647, rand = (\<lambda>_. 0), quota = 10000\<rparr>
     [Run_producer, Run_consumer, Run_monitor, Advance_time, Run_consumer, Advance_time,
      Run_producer] (top_ctor 10 (\<lambda>_. 0)) =
   Inr \<lparr>fifo_inst =
          \<lparr>data = [1, 1, 0, 0, 0, 0, 0, 0, 0, 0], fifo_size = 10, wr_ptr = 2,
             rd_ptr = 1, buffer_size = 1, read_count = 1, max_buffered = 1,
             average_acc = 1, last_time = 100\<rparr>,
        prod_done_sig = False, done_next = False, time_stamp = 1000,
        prod_wait = Until 2000, prod_at = P_paced 9998,
        cons_wait = Runnable, cons_at = C_in_read, cons_pd = 1,
        mon_wait = On_done_change, mon_at = M_wait_done, rand_calls = 2,
        console = [], written = [1, 1]\<rparr> \<and>
   run_consumer
     \<lparr>fifo_inst =
          \<lparr>data = [1, 1, 0, 0, 0, 0, 0, 0, 0, 0], fifo_size = 10, wr_ptr = 2,
             rd_ptr = 1, buffer_size = 1, read_count = 1, max_buffered = 1,
             average_acc = 1, last_time = 100\<rparr>,
        prod_done_sig = False, done_next = False, time_stamp = 1000,
        prod_wait = Until 2000, prod_at = P_paced 9998,
        cons_wait = Runnable, cons_at = C_in_read, cons_pd = 1,
        mon_wait = On_done_change, mon_at = M_wait_done, rand_calls = 2,
        console = [], written = [1, 1]\<rparr> =
   Inr \<lparr>fifo_inst =
          \<lparr>data = [1, 1, 0, 0, 0, 0, 0, 0, 0, 0], fifo_size = 10, wr_ptr = 2,
             rd_ptr = 2, buffer_size = 0, read_count = 2, max_buffered = 1,
             average_acc = 2, last_time = 100\<rparr>,
        prod_done_sig = False, done_next = False, time_stamp = 1000,
        prod_wait = Until 2000, prod_at = P_paced 9998,
        cons_wait = Until 1100, cons_at = C_paced, cons_pd = 1,
        mon_wait = On_done_change, mon_at = M_wait_done, rand_calls = 2,
        console = [], written = [1, 1]\<rparr>"
  by (simp add: sim_eval)

text \<open>
  Claim C6, amended: \<^verbatim>\<open>last_time\<close> is recorded when \<^verbatim>\<open>read\<close> is called, before the
  test for emptiness and before any suspension. A step of the simulation changes
  it exactly when the consumer calls \<^verbatim>\<open>read\<close>, to the simulated time of the call;
  the resumption of a suspended \<^verbatim>\<open>read\<close> and every other step leave it as it
  is. It is the time of the removal only for a \<^verbatim>\<open>read\<close> that does not suspend.
\<close>

theorem last_time_at_call:
  assumes "sim_step cfg c s = Inr s'"
  shows "last_time (fifo_inst s') =
           (if c = Run_consumer \<and> cons_at s \<noteq> C_in_read then time_stamp s
            else last_time (fifo_inst s))"
proof (cases c)
  case Run_producer
  with assms run_producer_frame [of cfg s s'] show ?thesis by simp
next
  case Run_consumer
  with assms run_consumer_frame [of s s'] show ?thesis by simp
next
  case Run_monitor
  with assms other_steps_frame [of c cfg s s'] show ?thesis by simp
next
  case Update
  with assms other_steps_frame [of c cfg s s'] show ?thesis by simp
next
  case Advance_time
  with assms other_steps_frame [of c cfg s s'] show ?thesis by simp
qed

theorem last_time_at_call_witness:
  "sim_step \<lparr>rand_max = 2147483647, rand = (\<lambda>_. 0), quota = 10000\<rparr> Run_consumer
     \<lparr>fifo_inst =
        \<lparr>data = [1, 0, 0, 0, 0, 0, 0, 0, 0, 0], fifo_size = 10, wr_ptr = 1,
           rd_ptr = 1, buffer_size = 0, read_count = 1, max_buffered = 1,
           average_acc = 1, last_time = 0\<rparr>,
        prod_done_sig = False, done_next = False, time_stamp = 100,
        prod_wait = Until 1000, prod_at = P_paced 9999,
        cons_wait = Runnable, cons_at = C_paced, cons_pd = 1,
        mon_wait = On_done_change, mon_at = M_wait_done, rand_calls = 1,
        console = [], written = [1]\<rparr> =
   Inr \<lparr>fifo_inst =
        \<lparr>data = [1, 0, 0, 0, 0, 0, 0, 0, 0, 0], fifo_size = 10, wr_ptr = 1,
           rd_ptr = 1, buffer_size = 0, read_count = 1, max_buffered = 1,
           average_acc = 1, last_time = 100\<rparr>,
        prod_done_sig = False, done_next = False, time_stamp = 100,
        prod_wait = Until 1000, prod_at = P_paced 9999,
        cons_wait = On_write_event, cons_at = C_in_read, cons_pd = 1,
        mon_wait = On_done_change, mon_at = M_wait_done, rand_calls = 1,
        console = [], written = [1]\<rparr> \<and>
   (100::nat) = (if Run_consumer = Run_consumer \<and> C_paced \<noteq> C_in_read then 100 else 0)"
  using last_time_at_call [of "\<lparr>rand_max = 2147483647, rand = (\<lambda>_. 0), quota = 10000\<rparr>"
      Run_consumer
      "\<lparr>fifo_inst =
        \<lparr>data = [1, 0, 0, 0, 0, 0, 0, 0, 0, 0], fifo_size = 10, wr_ptr = 1,
           rd_ptr = 1, buffer_size = 0, read_count = 1, max_buffered = 1,
           average_acc = 1, last_time = 0\<rparr>,
        prod_done_sig = False, done_next = False, time_stamp = 100,
        prod_wait = Until 1000, prod_at = P_paced 9999,
        cons_wait = Runnable, cons_at = C_paced, cons_pd = 1,
        mon_wait = On_done_change, mon_at = M_wait_done, rand_calls = 1,
        console = [], written = [1]\<rparr>"]
  by (simp add: sim_eval)

section \<open>The monitor\<close>

lemma mon_inv_step:
  assumes "mon_inv s" and "sim_step cfg c s = Inr s'"
  shows "mon_inv s'"
proof (cases c)
  case Run_producer
  with assms run_producer_frame [of cfg s s'] show ?thesis by (auto simp: mon_inv_def)
next
  case Run_consumer
  with assms run_consumer_frame [of s s'] show ?thesis by (auto simp: mon_inv_def)
next
  case Run_monitor
  with assms show ?thesis
    by (auto simp: mon_inv_def run_monitor_def drain_loop_def split: if_splits mon_pc.splits)
next
  case Update
  with assms show ?thesis
    by (auto simp: mon_inv_def update_phase_def wake_Terminated split: if_splits)
next
  case Advance_time
  with assms show ?thesis
    by (auto simp: mon_inv_def advance_time_def Let_def wake_Terminated
             split: if_splits list.splits)
qed

lemma mon_inv_run:
  assumes "mon_inv s" and "sim_exec cfg cs s = Inr s'"
  shows "mon_inv s'"
  using assms
proof (induction cs arbitrary: s)
  case Nil
  then show ?case by simp
next
  case (Cons c cs)
  from Cons.prems(2) obtain s1 where s1: "sim_step cfg c s = Inr s1" "sim_exec cfg cs s1 = Inr s'"
    by (auto split: sum.splits)
  from Cons.prems(1) s1(1) have "mon_inv s1" by (rule mon_inv_step)
  then show ?case using s1(2) by (rule Cons.IH)
qed

text \<open>
  Claim C9. In every run of the simulation, a step that prints a line is a
  step of the monitor, the line is the first one, the time printed is the
  current simulated time, and at that time the signal \<^verbatim>\<open>prod_done_sig\<close> is true
  and \<^verbatim>\<open>is_empty()\<close> holds; the monitor has returned afterwards.
\<close>

theorem drain_law:
  assumes "sim_exec cfg cs (top_ctor n heap) = Inr s" and "sim_step cfg c s = Inr s'"
    and "console s' \<noteq> console s"
  shows "c = Run_monitor \<and> console s = [] \<and> console s' = [time_stamp s] \<and>
         prod_done_sig s \<and> is_empty (fifo_inst s) \<and>
         time_stamp s' = time_stamp s \<and> mon_wait s' = Terminated"
proof -
  have "mon_inv (top_ctor n heap)" by (simp add: mon_inv_def top_ctor_def)
  from mon_inv_run [OF this assms(1)] have once: "console s = [] \<or> mon_wait s = Terminated"
    and drain: "mon_at s = M_wait_drain \<longrightarrow> prod_done_sig s"
    by (simp_all add: mon_inv_def)
  show ?thesis
  proof (cases c)
    case Run_producer
    with assms run_producer_frame [of cfg s s'] show ?thesis by simp
  next
    case Run_consumer
    with assms run_consumer_frame [of s s'] show ?thesis by simp
  next
    case Run_monitor
    with assms once drain show ?thesis
      by (auto simp: run_monitor_def drain_loop_def split: if_splits mon_pc.splits)
  next
    case Update
    with assms show ?thesis by (auto simp: update_phase_def split: if_splits)
  next
    case Advance_time
    with assms show ?thesis
      by (auto simp: advance_time_def Let_def split: if_splits list.splits)
  qed
qed

theorem drain_law_witness:
  "sim_exec \<lparr>rand_max = 2147483647, rand = (\<lambda>_. 0), quota = 1\<rparr>
     [Run_producer, Run_consumer, Run_monitor, Update] (top_ctor 2 (\<lambda>_. 0)) =
   Inr \<lparr>fifo_inst =
          \<lparr>data = [1, 0], fifo_size = 2, wr_ptr = 1, rd_ptr = 1, buffer_size = 0,
             read_count = 1, max_buffered = 1, average_acc = 1, last_time = 0\<rparr>,
        prod_done_sig = True, done_next = True, time_stamp = 0,
        prod_wait = Terminated, prod_at = P_entry, cons_wait = Until 100,
        cons_at = C_paced, cons_pd = 1, mon_wait = Runnable,
        mon_at = M_wait_done, rand_calls = 1, console = [], written = [1]\<rparr> \<and>
   sim_step \<lparr>rand_max = 2147483647, rand = (\<lambda>_. 0), quota = 1\<rparr> Run_monitor
     \<lparr>fifo_inst =
          \<lparr>data = [1, 0], fifo_size = 2, wr_ptr = 1, rd_ptr = 1, buffer_size = 0,
             read_count = 1, max_buffered = 1, average_acc = 1, last_time = 0\<rparr>,
        prod_done_sig = True, done_next = True, time_stamp = 0,
        prod_wait = Terminated, prod_at = P_entry, cons_wait = Until 100,
        cons_at = C_paced, cons_pd = 1, mon_wait = Runnable,
        mon_at = M_wait_done, rand_calls = 1, console = [], written = [1]\<rparr> =
   Inr \<lparr>fifo_inst =
          \<lparr>data = [1, 0], fifo_size = 2, wr_ptr = 1, rd_ptr = 1, buffer_size = 0,
             read_count = 1, max_buffered = 1, average_acc = 1, last_time = 0\<rparr>,
        prod_done_sig = True, done_next = True, time_stamp = 0,
        prod_wait = Terminated, prod_at = P_entry, cons_wait = Until 100,
        cons_at = C_paced, cons_pd = 1, mon_wait = Terminated,
        mon_at = M_wait_done, rand_calls = 1, console = [0], written = [1]\<rparr> \<and>
   [0::nat] \<noteq> [] \<and> Run_monitor = Run_monitor"
  using drain_law [of "\<lparr>rand_max = 2147483647, rand = (\<lambda>_. 0), quota = 1\<rparr>"
      "[Run_producer, Run_consumer, Run_monitor, Update]" 2 "\<lambda>_. 0" _ Run_monitor]
  by (simp add: sim_eval)

section \<open>The invariant of the simulation\<close>

lemma prod_ok_wake:
  assumes "prod_ok cfg s" and "ev \<noteq> Terminated"
    and "ev = On_read_event \<Longrightarrow> \<not> is_full (fifo_inst s)"
  shows "prod_ok cfg (wake ev s)"
  using assms by (auto simp: prod_ok_def wake_def split: if_splits prod_pc.splits)

lemma cons_ok_wake:
  assumes "cons_ok s" and "ev = On_write_event \<Longrightarrow> \<not> is_empty (fifo_inst s)"
  shows "cons_ok (wake ev s)"
  using assms by (auto simp: cons_ok_def wake_def)

lemma count_ok_wake [simp]: "count_ok (wake ev s) = count_ok s"
  by (simp add: count_ok_def)

lemma prod_ok_bound:
  assumes "prod_ok cfg s" and "1 \<le> quota cfg"
  shows "int (length (written s)) \<le> quota cfg + 19"
  using assms by (auto simp: prod_ok_def split: if_splits prod_pc.splits)

lemma sim_inv_top:
  assumes "0 < n"
  shows "sim_inv cfg (top_ctor n heap)"
  using assms
  by (simp add: sim_inv_def top_ctor_def ring_inv_ctor prod_ok_def cons_ok_def count_ok_def)
     (simp add: fifo_ctor_def)

lemma write_return_ok:
  assumes ring: "ring_inv (fifo_inst s)" and room: "\<not> is_full (fifo_inst s)"
    and co: "cons_ok s" and cnt: "count_ok s"
  shows "\<exists>s1. write_return pd s = Inr s1 \<and> ring_inv (fifo_inst s1) \<and> cons_ok s1 \<and>
           count_ok s1 \<and> written s1 = written s @ [pd] \<and>
           (prod_wait s = Runnable \<longrightarrow> prod_wait s1 = Runnable)"
proof -
  from ring room obtain f' where w: "write_body (fifo_inst s) pd = Inr f'" "ring_inv f'"
    "unat (buffer_size f') = Suc (unat (buffer_size (fifo_inst s)))"
    "read_count f' = read_count (fifo_inst s)"
    using write_body_ok [of "fifo_inst s" pd] by (auto simp: is_full_def)
  let ?s2 = "s\<lparr>fifo_inst := f', written := written s @ [pd]\<rparr>"
  from w(3) have ne: "\<not> is_empty f'" by (auto simp: is_empty_def)
  have "cons_ok ?s2" using co ne by (auto simp: cons_ok_def)
  then have 1: "cons_ok (wake On_write_event ?s2)" using ne by (intro cons_ok_wake) simp_all
  have 2: "count_ok (wake On_write_event ?s2)" using cnt w(3,4) by (simp add: count_ok_def)
  have 3: "write_return pd s = Inr (wake On_write_event ?s2)" using w(1) by (simp add: write_return_def)
  show ?thesis using 1 2 3 w(2) by (simp add: wake_def)
qed

lemma burst_loop_inv:
  assumes "ring_inv (fifo_inst s)" and "cons_ok s" and "count_ok s" and "prod_wait s = Runnable"
    and "total_loop = quota cfg - int (length (written s))" and "0 \<le> i"
    and "- 19 \<le> total_loop - i"
  shows "\<exists>s'. burst_loop total_loop i pd s = Inr s' \<and> sim_inv cfg s'"
  using assms
proof (induction total_loop i pd s rule: burst_loop.induct)
  case (1 total_loop i pd s)
  show ?case
  proof (cases "0 \<le> i - 1")
    case False
    then have eq: "burst_loop total_loop i pd s = Inr (after_burst total_loop s)"
      by (simp add: burst_loop.simps [of total_loop i pd s])
    from False "1.prems" have "i = 0" by simp
    with "1.prems" have "sim_inv cfg (after_burst total_loop s)"
      by (auto simp: sim_inv_def after_burst_def prod_ok_def cons_ok_def count_ok_def is_empty_def)
    with eq show ?thesis by simp
  next
    case True
    show ?thesis
    proof (cases "is_full (fifo_inst s)")
      case full: True
      let ?s' = "s\<lparr>prod_at := P_in_write total_loop (i - 1) (pd + 1), prod_wait := On_read_event\<rparr>"
      from True full have eq: "burst_loop total_loop i pd s = Inr ?s'"
        by (simp add: burst_loop.simps [of total_loop i pd s])
      from True "1.prems" have "sim_inv cfg ?s'"
        by (auto simp: sim_inv_def prod_ok_def cons_ok_def count_ok_def is_empty_def)
      with eq show ?thesis by simp
    next
      case False
      from write_return_ok [OF "1.prems"(1) False "1.prems"(2,3), of "pd + 1"] "1.prems"(4)
      obtain s1 where s1: "write_return (pd + 1) s = Inr s1" "ring_inv (fifo_inst s1)"
        "cons_ok s1" "count_ok s1" "written s1 = written s @ [pd + 1]" "prod_wait s1 = Runnable"
        by auto
      have "total_loop - 1 = quota cfg - int (length (written s1))"
        using "1.prems"(5) s1(5) by simp
      moreover have "0 \<le> i - 1" by fact
      moreover have "- 19 \<le> (total_loop - 1) - (i - 1)" using "1.prems"(7) by simp
      ultimately obtain s' where "burst_loop (total_loop - 1) (i - 1) (pd + 1) s1 = Inr s'"
        "sim_inv cfg s'"
        using "1.IH" [OF refl True refl False s1(2,3,4,6)] by blast
      with True False s1(1) show ?thesis
        by (simp add: burst_loop.simps [of total_loop i pd s])
    qed
  qed
qed

lemma run_producer_inv:
  assumes inv: "sim_inv cfg s" and run: "prod_wait s = Runnable"
    and q1: "1 \<le> quota cfg" and rm: "0 < rand_max cfg" and rnd: "\<forall>k. rand cfg k \<le> rand_max cfg"
  shows "\<exists>s'. run_producer cfg s = Inr s' \<and> sim_inv cfg s'"
proof -
  let ?b = "burst_length (rand_max cfg) (rand cfg (rand_calls s))"
  let ?s0 = "s\<lparr>rand_calls := rand_calls s + 1\<rparr>"
  have b: "1 \<le> ?b \<and> ?b \<le> 20" using rm rnd by (intro burst_length_range) simp_all
  from inv have base: "ring_inv (fifo_inst ?s0)" "cons_ok ?s0" "count_ok ?s0" "prod_wait ?s0 = Runnable"
    using run by (simp_all add: sim_inv_def cons_ok_def count_ok_def is_empty_def)
  from inv have po: "prod_ok cfg s" by (simp add: sim_inv_def)
  show ?thesis
  proof (cases "prod_at s")
    case P_entry
    with po run have "written s = []" by (simp add: prod_ok_def)
    then have "quota cfg = quota cfg - int (length (written ?s0))" by simp
    moreover have "0 \<le> ?b" "- 19 \<le> quota cfg - ?b" using b q1 by simp_all
    ultimately obtain s' where "burst_loop (quota cfg) ?b 0 ?s0 = Inr s'" "sim_inv cfg s'"
      using burst_loop_inv [OF base, of "quota cfg" cfg ?b 0] by blast
    with P_entry run show ?thesis by (simp add: run_producer_def start_burst_def)
  next
    case (P_in_write total_loop i pd)
    with po run have acct: "total_loop = quota cfg - int (length (written s))" "0 \<le> i"
      "- 18 \<le> total_loop - i" "\<not> is_full (fifo_inst s)"
      by (simp_all add: prod_ok_def)
    from inv have "ring_inv (fifo_inst s)" "cons_ok s" "count_ok s" by (simp_all add: sim_inv_def)
    from write_return_ok [OF this(1) acct(4) this(2,3), of pd] run
    obtain s1 where s1: "write_return pd s = Inr s1" "ring_inv (fifo_inst s1)"
      "cons_ok s1" "count_ok s1" "written s1 = written s @ [pd]" "prod_wait s1 = Runnable"
      by auto
    have "total_loop - 1 = quota cfg - int (length (written s1))" using acct(1) s1(5) by simp
    moreover have "- 19 \<le> (total_loop - 1) - i" using acct(3) by simp
    ultimately obtain s' where "burst_loop (total_loop - 1) i pd s1 = Inr s'" "sim_inv cfg s'"
      using burst_loop_inv [OF s1(2,3,4,6), of "total_loop - 1" cfg i pd] acct(2) by blast
    with P_in_write run s1(1) show ?thesis by (simp add: run_producer_def)
  next
    case (P_paced total_loop)
    with po run have acct: "total_loop = quota cfg - int (length (written s))" "1 \<le> total_loop"
      by (simp_all add: prod_ok_def)
    then have "total_loop = quota cfg - int (length (written ?s0))" by simp
    moreover have "0 \<le> ?b" "- 19 \<le> total_loop - ?b" using b acct(2) by simp_all
    ultimately obtain s' where "burst_loop total_loop ?b 0 ?s0 = Inr s'" "sim_inv cfg s'"
      using burst_loop_inv [OF base, of total_loop cfg ?b 0] by blast
    with P_paced run show ?thesis by (simp add: run_producer_def start_burst_def)
  qed
qed

lemma unat_succ_bound: "unat x + 1 < 2 ^ 32 \<Longrightarrow> unat (x + 1 :: u32) = Suc (unat x)"
proof -
  assume "unat x + 1 < 2 ^ 32"
  then have "unat x + unat (1::u32) < 2 ^ LENGTH(32)" by simp
  then have "unat (x + 1) = unat x + unat (1::u32)" by (simp only: unat_add_lem [THEN iffD1])
  then show ?thesis by simp
qed

lemma prod_ok_cong:
  assumes "prod_wait s' = prod_wait s" and "prod_at s' = prod_at s"
    and "written s' = written s" and "is_full (fifo_inst s') = is_full (fifo_inst s)"
  shows "prod_ok cfg s' = prod_ok cfg s"
  using assms by (auto simp: prod_ok_def split: prod_pc.splits)

lemma sim_inv_cong:
  assumes "sim_inv cfg s" and "cons_ok s'" and "fifo_inst s' = fifo_inst s"
    and "prod_wait s' = prod_wait s" and "prod_at s' = prod_at s" and "written s' = written s"
  shows "sim_inv cfg s'"
proof -
  have "prod_ok cfg s' = prod_ok cfg s" using assms(3-6) by (intro prod_ok_cong) simp_all
  with assms show ?thesis by (simp add: sim_inv_def count_ok_def)
qed

lemma read_return_ok:
  assumes inv: "sim_inv cfg s" and some: "\<not> is_empty (fifo_inst s)"
    and q1: "1 \<le> quota cfg" and q2: "quota cfg < 2 ^ 31"
  shows "\<exists>s'. read_return s = Inr s' \<and> sim_inv cfg s'"
proof -
  from inv have ring: "ring_inv (fifo_inst s)" and po: "prod_ok cfg s" and cnt: "count_ok s"
    by (simp_all add: sim_inv_def)
  from ring some obtain v f' where r: "read_body (fifo_inst s) = Inr (v, f')" "ring_inv f'"
    "Suc (unat (buffer_size f')) = unat (buffer_size (fifo_inst s))"
    "fifo_size f' = fifo_size (fifo_inst s)" "read_count f' = read_count (fifo_inst s) + 1"
    using read_body_ok [of "fifo_inst s"] by (auto simp: is_empty_def)
  have le: "unat (buffer_size (fifo_inst s)) \<le> unat (fifo_size (fifo_inst s))"
    using ring by (simp add: ring_inv_def word_le_nat_alt)
  with r(3,4) have nf: "\<not> is_full f'" by (auto simp: is_full_def)
  have "int (length (written s)) \<le> quota cfg + 19" using po q1 by (rule prod_ok_bound)
  with q2 have "length (written s) < 2 ^ 32" by simp
  with cnt r(3) have "unat (read_count (fifo_inst s)) + 1 < 2 ^ 32" by (simp add: count_ok_def)
  then have rc: "unat (read_count (fifo_inst s) + 1) = Suc (unat (read_count (fifo_inst s)))"
    by (rule unat_succ_bound)
  let ?s2 = "s\<lparr>fifo_inst := f', cons_pd := v\<rparr>"
  let ?s' = "(wake On_read_event ?s2)\<lparr>cons_at := C_paced, cons_wait := Until (time_stamp s + 100)\<rparr>"
  have "prod_ok cfg ?s2" using po nf by (auto simp: prod_ok_def split: if_splits prod_pc.splits)
  then have "prod_ok cfg (wake On_read_event ?s2)" using nf by (intro prod_ok_wake) simp_all
  moreover have "prod_ok cfg ?s' = prod_ok cfg (wake On_read_event ?s2)"
    by (rule prod_ok_cong) simp_all
  ultimately have 1: "prod_ok cfg ?s'" by simp
  have 2: "count_ok ?s'" using cnt r(3,5) rc by (simp add: count_ok_def)
  have 3: "cons_ok ?s'" by (simp add: cons_ok_def)
  have 4: "read_return s = Inr ?s'" using r(1) by (simp add: read_return_def)
  show ?thesis using 1 2 3 4 r(2) by (simp add: sim_inv_def)
qed

lemma run_consumer_inv:
  assumes inv: "sim_inv cfg s" and q1: "1 \<le> quota cfg" and q2: "quota cfg < 2 ^ 31"
  shows "run_consumer s \<noteq> Inl OutOfBounds \<and>
         (\<forall>s'. run_consumer s = Inr s' \<longrightarrow> sim_inv cfg s')"
proof (cases "cons_wait s = Runnable")
  case False
  then show ?thesis by (simp add: run_consumer_def)
next
  case True
  show ?thesis
  proof (cases "cons_at s = C_in_read")
    case resume: True
    with inv True have "\<not> is_empty (fifo_inst s)" by (simp add: sim_inv_def cons_ok_def)
    from read_return_ok [OF inv this q1 q2] True resume show ?thesis
      by (auto simp: run_consumer_def)
  next
    case False
    let ?s1 = "s\<lparr>fifo_inst := read_enter (time_stamp s) (fifo_inst s)\<rparr>"
    have inv1: "sim_inv cfg ?s1"
    proof -
      have "prod_ok cfg ?s1 = prod_ok cfg s"
        by (rule prod_ok_cong) (simp_all add: is_full_def read_enter_def)
      moreover have "cons_ok ?s1 = cons_ok s"
        by (simp add: cons_ok_def is_empty_def read_enter_def)
      moreover have "count_ok ?s1 = count_ok s"
        by (simp add: count_ok_def read_enter_def)
      ultimately show ?thesis using inv by (simp add: sim_inv_def ring_inv_read_enter)
    qed
    have call: "run_consumer s =
        (if is_empty (fifo_inst ?s1)
         then Inr (?s1\<lparr>cons_at := C_in_read, cons_wait := On_write_event\<rparr>)
         else read_return ?s1)"
      using True False by (cases "cons_at s") (simp_all add: run_consumer_def Let_def)
    show ?thesis
    proof (cases "is_empty (fifo_inst ?s1)")
      case empty: True
      have "sim_inv cfg (?s1\<lparr>cons_at := C_in_read, cons_wait := On_write_event\<rparr>)"
        using inv1 by (rule sim_inv_cong) (simp_all add: cons_ok_def)
      with call empty show ?thesis by simp
    next
      case nonempty: False
      from read_return_ok [OF inv1 nonempty q1 q2] call nonempty show ?thesis by auto
    qed
  qed
qed

lemma kernel_step_inv:
  assumes inv: "sim_inv cfg s" and c: "c = Run_monitor \<or> c = Update \<or> c = Advance_time"
  shows "sim_step cfg c s \<noteq> Inl OutOfBounds \<and>
         (\<forall>s'. sim_step cfg c s = Inr s' \<longrightarrow> sim_inv cfg s')"
proof -
  have co: "cons_ok s" using inv by (simp add: sim_inv_def)
  have mon: "sim_inv cfg (drain_loop s)"
    "sim_inv cfg (s\<lparr>mon_at := M_wait_done, mon_wait := On_done_change\<rparr>)"
    using inv co by (auto intro!: sim_inv_cong [OF inv] simp: drain_loop_def cons_ok_def)
  have wk: "sim_inv cfg (wake ev (s\<lparr>prod_done_sig := b\<rparr>))"
    "sim_inv cfg (wake ev (s\<lparr>time_stamp := t\<rparr>))"
    if "ev \<noteq> Terminated" "ev \<noteq> On_read_event" "ev \<noteq> On_write_event" for ev b t
  proof -
    have "sim_inv cfg (s\<lparr>prod_done_sig := b\<rparr>)" "sim_inv cfg (s\<lparr>time_stamp := t\<rparr>)"
      using co by (auto intro!: sim_inv_cong [OF inv] simp: cons_ok_def)
    then have a: "prod_ok cfg (s\<lparr>prod_done_sig := b\<rparr>)" "cons_ok (s\<lparr>prod_done_sig := b\<rparr>)"
      "prod_ok cfg (s\<lparr>time_stamp := t\<rparr>)" "cons_ok (s\<lparr>time_stamp := t\<rparr>)"
      by (simp_all add: sim_inv_def)
    from a(1) that have "prod_ok cfg (wake ev (s\<lparr>prod_done_sig := b\<rparr>))" by (intro prod_ok_wake) simp_all
    moreover from a(2) that have "cons_ok (wake ev (s\<lparr>prod_done_sig := b\<rparr>))" by (intro cons_ok_wake) simp_all
    moreover from a(3) that have "prod_ok cfg (wake ev (s\<lparr>time_stamp := t\<rparr>))" by (intro prod_ok_wake) simp_all
    moreover from a(4) that have "cons_ok (wake ev (s\<lparr>time_stamp := t\<rparr>))" by (intro cons_ok_wake) simp_all
    ultimately show "sim_inv cfg (wake ev (s\<lparr>prod_done_sig := b\<rparr>))"
      "sim_inv cfg (wake ev (s\<lparr>time_stamp := t\<rparr>))"
      using inv by (simp_all add: sim_inv_def count_ok_def)
  qed
  from c show ?thesis
  proof (elim disjE)
    assume "c = Run_monitor"
    with mon show ?thesis
      by (auto simp: run_monitor_def split: if_splits mon_pc.splits)
  next
    assume "c = Update"
    with wk(1) [of On_done_change] show ?thesis
      by (auto simp: update_phase_def split: if_splits)
  next
    assume "c = Advance_time"
    with wk(2) show ?thesis
      by (auto simp: advance_time_def Let_def split: if_splits list.splits)
  qed
qed

lemma sim_inv_step:
  assumes inv: "sim_inv cfg s" and q1: "1 \<le> quota cfg" and q2: "quota cfg < 2 ^ 31"
    and rm: "0 < rand_max cfg" and rnd: "\<forall>k. rand cfg k \<le> rand_max cfg"
  shows "sim_step cfg c s \<noteq> Inl OutOfBounds \<and>
         (\<forall>s'. sim_step cfg c s = Inr s' \<longrightarrow> sim_inv cfg s')"
proof (cases c)
  case Run_producer
  show ?thesis
  proof (cases "prod_wait s = Runnable")
    case True
    from run_producer_inv [OF inv True q1 rm rnd] Run_producer show ?thesis by auto
  next
    case False
    with Run_producer show ?thesis by (simp add: run_producer_def)
  qed
next
  case Run_consumer
  with run_consumer_inv [OF inv q1 q2] show ?thesis by simp
next
  case Run_monitor
  with kernel_step_inv [OF inv, of c] show ?thesis by simp
next
  case Update
  with kernel_step_inv [OF inv, of c] show ?thesis by simp
next
  case Advance_time
  with kernel_step_inv [OF inv, of c] show ?thesis by simp
qed

lemma sim_inv_run:
  assumes "sim_inv cfg s" and "1 \<le> quota cfg" and "quota cfg < 2 ^ 31"
    and "0 < rand_max cfg" and "\<forall>k. rand cfg k \<le> rand_max cfg"
  shows "sim_exec cfg cs s \<noteq> Inl OutOfBounds \<and>
         (\<forall>s'. sim_exec cfg cs s = Inr s' \<longrightarrow> sim_inv cfg s')"
  using assms(1)
proof (induction cs arbitrary: s)
  case Nil
  then show ?case by simp
next
  case (Cons c cs)
  from sim_inv_step [OF Cons.prems assms(2-5), of c]
  have nofault: "sim_step cfg c s \<noteq> Inl OutOfBounds"
    and keep: "\<And>s1. sim_step cfg c s = Inr s1 \<Longrightarrow> sim_inv cfg s1"
    by auto
  show ?case
  proof (cases "sim_step cfg c s")
    case (Inl e)
    with nofault show ?thesis by simp
  next
    case (Inr s1)
    with keep Cons.IH [of s1] show ?thesis by simp
  qed
qed

text \<open>The program as shipped: whatever the command line, the random numbers and
  the order of the processes, no access to \<^verbatim>\<open>data\<close> is out of bounds.\<close>

lemma sc_main_size_range: "0 < sc_main_size arg \<and> sc_main_size arg \<le> 100000"
proof -
  have "0 < (if x < 1 then 1 else x)" for x :: u32
    by (simp add: word_gt_0)
  then show ?thesis
    by (auto simp: sc_main_size_def Let_def word_gt_0 not_less split: option.splits)
qed

lemma shipped_program_in_bounds:
  assumes "0 < rand_max cfg" and "\<forall>k. rand cfg k \<le> rand_max cfg" and "quota cfg = 10000"
  shows "sim_exec cfg cs (top_ctor (sc_main_size arg) heap) \<noteq> Inl OutOfBounds"
proof -
  have "0 < sc_main_size arg" by (simp add: sc_main_size_range)
  then have "sim_inv cfg (top_ctor (sc_main_size arg) heap)" by (rule sim_inv_top)
  moreover have "1 \<le> quota cfg" "quota cfg < 2 ^ 31" using assms(3) by simp_all
  ultimately show ?thesis using assms(1,2) sim_inv_run by blast
qed

section \<open>Conservation\<close>

lemma sim_exec_append:
  "sim_exec cfg (cs @ ds) s =
     (case sim_exec cfg cs s of Inl e \<Rightarrow> Inl e | Inr s' \<Rightarrow> sim_exec cfg ds s')"
  by (induction cs arbitrary: s) (auto split: sum.splits)

lemma steady_burst:
  assumes "3 < total_loop" and "700 \<le> t"
  shows "sim_exec \<lparr>rand_max = 2147483647, rand = (\<lambda>_. 226050911), quota = 10000\<rparr>
           [Run_producer, Run_consumer, Advance_time, Run_consumer, Advance_time,
            Run_consumer, Advance_time, Run_consumer, Advance_time]
           (steady t total_loop r a w c) =
         Inr (steady (t + 1000) (total_loop - 3) (r + 3) (a + 6) (w @ [1, 2, 3]) (Suc c))"
  using assms by (simp add: steady_def sim_eval min_def)

lemma concat_replicate_comm:
  "concat (replicate k xs) @ xs = xs @ concat (replicate k xs)"
  by (induction k) simp_all

lemma steady_bursts:
  assumes "3 * int m < total_loop" and "700 \<le> t"
  shows "sim_exec \<lparr>rand_max = 2147483647, rand = (\<lambda>_. 226050911), quota = 10000\<rparr>
           (concat (replicate m
              [Run_producer, Run_consumer, Advance_time, Run_consumer, Advance_time,
               Run_consumer, Advance_time, Run_consumer, Advance_time]))
           (steady t total_loop r a w c) =
         Inr (steady (t + 1000 * m) (total_loop - 3 * int m) (r + 3 * of_nat m)
                (a + 6 * of_nat m) (w @ concat (replicate m [1, 2, 3])) (c + m))"
  using assms
proof (induction m arbitrary: t total_loop r a w c)
  case 0
  show ?case by simp
next
  case (Suc m)
  let ?B = "[Run_producer, Run_consumer, Advance_time, Run_consumer, Advance_time,
             Run_consumer, Advance_time, Run_consumer, Advance_time]"
  from Suc.prems have first: "3 < total_loop" and rest: "3 * int m < total_loop - 3"
    and t': "700 \<le> t + 1000"
    by simp_all
  have "concat (replicate (Suc m) ?B) = ?B @ concat (replicate m ?B)" by simp
  then show ?case
    using Suc.IH [OF rest t', of "r + 3" "a + 6" "w @ [1, 2, 3]" "Suc c"]
    by (simp only: sim_exec_append steady_burst [OF first Suc.prems(2)] sum.case)
       (simp add: algebra_simps)
qed

lemma steady_reached:
  "sim_exec \<lparr>rand_max = 2147483647, rand = (\<lambda>_. 226050911), quota = 10000\<rparr>
     [Run_producer, Run_consumer, Run_monitor, Advance_time, Run_consumer, Advance_time,
      Run_consumer, Advance_time, Run_consumer, Advance_time] (top_ctor 3 (\<lambda>_. 0)) =
   Inr (steady 1000 9997 3 6 [1, 2, 3] 1)"
  by (simp add: steady_def sim_eval min_def)

lemma steady_left:
  "sim_exec \<lparr>rand_max = 2147483647, rand = (\<lambda>_. 226050911), quota = 10000\<rparr>
     [Run_producer, Run_consumer, Update, Run_monitor, Advance_time, Run_consumer,
      Run_monitor, Advance_time, Run_consumer, Run_monitor]
     (steady t 1 r a w c) =
   Inr \<lparr>fifo_inst =
          \<lparr>data = [1, 2, 3], fifo_size = 3, wr_ptr = 0, rd_ptr = 0, buffer_size = 0,
           read_count = r + 3, max_buffered = 3, average_acc = a + 6, last_time = t + 200\<rparr>,
        prod_done_sig = True, done_next = True, time_stamp = t + 200,
        prod_wait = Terminated, prod_at = P_paced 1,
        cons_wait = Until (t + 300), cons_at = C_paced, cons_pd = 3,
        mon_wait = Terminated, mon_at = M_wait_drain, rand_calls = Suc c,
        console = [t + 200], written = w @ [1, 2, 3]\<rparr>"
  by (simp add: steady_def sim_eval min_def)

text \<open>
  Claim C1, as stated: once the producer is done and the channel has drained,
  \<^verbatim>\<open>read_count\<close> is exactly the quota, whatever bursts were drawn. The producer
  tests \<^verbatim>\<open>total_loop\<close> only after a whole burst (line 175). With the quota 10000
  of line 162, capacity 3 and \<^verbatim>\<open>rand()\<close> always returning 226050911 (with
  \<^verbatim>\<open>RAND_MAX\<close> = 2147483647: every burst has 3 elements), the producer writes
  3334 bursts; when it has returned and the channel is empty, 10002 elements
  have been read.
\<close>

theorem conservation_counterexample:
  "sim_exec \<lparr>rand_max = 2147483647, rand = (\<lambda>_. 226050911), quota = 10000\<rparr>
     ([Run_producer, Run_consumer, Run_monitor, Advance_time, Run_consumer, Advance_time,
       Run_consumer, Advance_time, Run_consumer, Advance_time] @
      concat (replicate 3332
        [Run_producer, Run_consumer, Advance_time, Run_consumer, Advance_time,
         Run_consumer, Advance_time, Run_consumer, Advance_time]) @
      [Run_producer, Run_consumer, Update, Run_monitor, Advance_time, Run_consumer,
       Run_monitor, Advance_time, Run_consumer, Run_monitor])
     (top_ctor 3 (\<lambda>_. 0)) =
   Inr \<lparr>fifo_inst =
          \<lparr>data = [1, 2, 3], fifo_size = 3, wr_ptr = 0, rd_ptr = 0, buffer_size = 0,
           read_count = 10002, max_buffered = 3, average_acc = 20004, last_time = 3333200\<rparr>,
        prod_done_sig = True, done_next = True, time_stamp = 3333200,
        prod_wait = Terminated, prod_at = P_paced 1,
        cons_wait = Until 3333300, cons_at = C_paced, cons_pd = 3,
        mon_wait = Terminated, mon_at = M_wait_drain, rand_calls = 3334,
        console = [3333200], written = concat (replicate 3334 [1, 2, 3])\<rparr>"
proof -
  have "concat (replicate (Suc (Suc 3332)) [1, 2, 3::u32]) =
      [1, 2, 3] @ [1, 2, 3] @ concat (replicate 3332 [1, 2, 3])"
    by (simp only: replicate_Suc concat.simps)
  also have "\<dots> = [1, 2, 3] @ concat (replicate 3332 [1, 2, 3]) @ [1, 2, 3]"
    by (simp only: concat_replicate_comm)
  finally have calc: "concat (replicate (Suc (Suc 3332)) [1, 2, 3::u32]) =
      [1, 2, 3] @ concat (replicate 3332 [1, 2, 3]) @ [1, 2, 3]" .
  have n: "Suc (Suc 3332) = (3334::nat)" by simp
  have w: "[1, 2, 3] @ concat (replicate 3332 [1, 2, 3::u32]) @ [1, 2, 3] =
      concat (replicate 3334 [1, 2, 3])"
    by (subst n [symmetric]) (rule calc [symmetric])
  then have w': "1 # 2 # 3 # concat (replicate 3332 [1, 2, 3::u32]) @ [1, 2, 3] =
      concat (replicate 3334 [1, 2, 3])"
    by simp
  have mid: "sim_exec \<lparr>rand_max = 2147483647, rand = (\<lambda>_. 226050911), quota = 10000\<rparr>
      (concat (replicate 3332
        [Run_producer, Run_consumer, Advance_time, Run_consumer, Advance_time,
         Run_consumer, Advance_time, Run_consumer, Advance_time]))
      (steady 1000 9997 3 6 [1, 2, 3] 1) =
    Inr (steady 3333000 1 9999 19998 ([1, 2, 3] @ concat (replicate 3332 [1, 2, 3])) 3333)"
    using steady_bursts [of 3332 9997 1000 3 6 "[1, 2, 3]" 1] by simp
  show ?thesis
    by (simp only: sim_exec_append steady_reached mid steady_left sum.case)
       (simp add: w')
qed

text \<open>
  Claim C1, amended: in every run, for a capacity of at least 1, a quota between
  1 and \<open>2^31 - 1\<close> and \<^verbatim>\<open>rand()\<close> within \<open>0 \<dots> RAND_MAX\<close>, once the producer has
  returned and the channel is empty, \<^verbatim>\<open>read_count\<close> is the number of elements the
  producer has written, which is at least the quota and at most the quota plus
  19.
\<close>

theorem conservation:
  assumes "0 < n" and "1 \<le> quota cfg" and "quota cfg < 2 ^ 31"
    and "0 < rand_max cfg" and "\<forall>k. rand cfg k \<le> rand_max cfg"
    and "sim_exec cfg cs (top_ctor n heap) = Inr s"
    and "prod_wait s = Terminated" and "is_empty (fifo_inst s)"
  shows "unat (read_count (fifo_inst s)) = length (written s) \<and>
         quota cfg \<le> int (length (written s)) \<and>
         int (length (written s)) \<le> quota cfg + 19"
proof -
  have "sim_inv cfg (top_ctor n heap)" using assms(1) by (rule sim_inv_top)
  from sim_inv_run [OF this assms(2-5), of cs] assms(6) have "sim_inv cfg s" by simp
  then have po: "prod_ok cfg s" and cnt: "count_ok s" by (simp_all add: sim_inv_def)
  from po assms(7) have "quota cfg \<le> int (length (written s))"
    and "int (length (written s)) \<le> quota cfg + 19"
    by (simp_all add: prod_ok_def)
  moreover from cnt assms(8) have "unat (read_count (fifo_inst s)) = length (written s)"
    by (simp add: count_ok_def is_empty_def)
  ultimately show ?thesis by simp
qed

theorem conservation_witness:
  "(0::u32) < 2 \<and> (1::int) \<le> 1 \<and> (1::int) < 2 ^ 31 \<and> (0::nat) < 2147483647 \<and>
   (\<forall>k::nat. (0::nat) \<le> 2147483647) \<and>
   sim_exec \<lparr>rand_max = 2147483647, rand = (\<lambda>_. 0), quota = 1\<rparr>
     [Run_producer, Run_consumer] (top_ctor 2 (\<lambda>_. 0)) =
   Inr \<lparr>fifo_inst =
          \<lparr>data = [1, 0], fifo_size = 2, wr_ptr = 1, rd_ptr = 1, buffer_size = 0,
             read_count = 1, max_buffered = 1, average_acc = 1, last_time = 0\<rparr>,
        prod_done_sig = False, done_next = True, time_stamp = 0,
        prod_wait = Terminated, prod_at = P_entry, cons_wait = Until 100,
        cons_at = C_paced, cons_pd = 1, mon_wait = Runnable,
        mon_at = M_entry, rand_calls = 1, console = [], written = [1]\<rparr> \<and>
   unat (1::u32) = length [1::u32] \<and> (1::int) \<le> int (length [1::u32]) \<and>
   int (length [1::u32]) \<le> 1 + 19"
  using conservation [of 2 "\<lparr>rand_max = 2147483647, rand = (\<lambda>_. 0), quota = 1\<rparr>"
      "[Run_producer, Run_consumer]" "\<lambda>_. 0"]
  by (simp add: sim_eval)

end
